theory Spec2Isabelle
  imports Complex_Main "HOL-Library.Multiset" "HOL-Library.Sublist"
begin

section \<open>Data model\<close>

text \<open>
  Modelled from the spec: the price record type is declared in the models module, which
  is not among the sources. Section 3 of the specification gives its fields: an address,
  a decimal price, the chain identifier and optional metadata. The service only copies
  such records and replaces their address field.
\<close>

record Price =
  address :: string
  price :: rat
  chainId :: int
  metadata :: "string option"

text \<open>
  The token type \<^verbatim>\<open>ERC20Token\<close>, with the five fields the service writes when it builds
  the synthetic wrapped-native token.
\<close>

record ERC20Token =
  address :: string
  name :: string
  symbol :: string
  decimals :: nat
  chainId :: int

text \<open>A thrown JavaScript value.\<close>

datatype error = Error string

text \<open>
  A JavaScript \<^verbatim>\<open>Map\<close> keeps its entries in insertion order, and
  \<^verbatim>\<open>Array.from(m.values())\<close> lists the values in that order: the price map is an
  association list. \<^verbatim>\<open>get\<close> is \<^const>\<open>map_of\<close>; \<^verbatim>\<open>set\<close> replaces the
  value of a key that is present, in place, and appends a key that is new.
\<close>

type_synonym prices = "(string \<times> Price) list"

fun map_set :: "'k \<Rightarrow> 'v \<Rightarrow> ('k \<times> 'v) list \<Rightarrow> ('k \<times> 'v) list" where
  "map_set k v [] = [(k, v)]"
| "map_set k v ((k', v') # m) = (if k' = k then (k, v) # m else (k', v') # map_set k v m)"

definition map_values :: "('k \<times> 'v) list \<Rightarrow> 'v list" where
  "map_values m = map snd m"

section \<open>Strings\<close>

text \<open>
  \<^verbatim>\<open>String.prototype.toLowerCase\<close> on the bytes of a string: the letters A to Z go to
  a to z, every other byte stays. Token addresses are hexadecimal ASCII strings.
\<close>

definition toLowerChar :: "char \<Rightarrow> char" where
  "toLowerChar c =
     (case map_of (zip ''ABCDEFGHIJKLMNOPQRSTUVWXYZ'' ''abcdefghijklmnopqrstuvwxyz'') c of
        None \<Rightarrow> c
      | Some l \<Rightarrow> l)"

definition toLowerCase :: "string \<Rightarrow> string" where
  "toLowerCase s = map toLowerChar s"

text \<open>Case-insensitive equality of two strings, as the specification words the match.\<close>

definition eq_ignoring_case :: "string \<Rightarrow> string \<Rightarrow> bool" where
  "eq_ignoring_case a b = (toLowerCase a = toLowerCase b)"

section \<open>The collaborators and what the service does to them\<close>

text \<open>
  The price fetcher, the storage and the token discovery are imported modules. Each is a
  field of the environment: a function of the arguments of the call that returns the
  value of the call or the error it throws. \<^verbatim>\<open>storePrices\<close> is called without
  \<^verbatim>\<open>await\<close>, so only a synchronous throw reaches the handler; this is the one
  modelled. The fetcher and the discovery return promises: their error is a rejection,
  which the caller meets at its \<^verbatim>\<open>await\<close>.

  The order in which pending promises settle is decided outside the service as well:
  \<open>batchOrder\<close> gives it for the batches of the group at a position of a chain,
  \<open>chainOrder\<close> for the chains of a pass, each as a list of choices among the calls that
  can go on (see \<open>interleave\<close> below).
\<close>

record env =
  fetchPrices :: "int \<Rightarrow> ERC20Token list \<Rightarrow> error + prices"
  getPriceStorage :: "error + unit"
  storePrices :: "int \<Rightarrow> Price list \<Rightarrow> error + unit"
  discoverAllTokens :: "bool \<Rightarrow> error + (int \<times> ERC20Token list) list"
  batchOrder :: "int \<Rightarrow> nat \<Rightarrow> nat list"
  chainOrder :: "nat list"

text \<open>One constructor for each call of the logger, with the values it interpolates.\<close>

datatype log_entry =
    ErrorFetchingPrices int error
  | DiscoveryComplete nat nat
  | PriceFetchComplete nat nat
  | ErrorFetchingDiscovered error
  | StartingPriceService int

text \<open>
  The calls the service makes on its collaborators. The behaviour of a call of a function
  of the service is the list of these events, in the order in which they happen, together
  with the outcome of its promise.
\<close>

datatype event =
    FetchPrices int "ERC20Token list"
  | GetPriceStorage
  | StorePrices int "Price list"
  | DiscoverAllTokens bool
  | TrackerStart string string nat "int option"
  | TrackerIncrement string
  | TrackerUpdate string nat
  | TrackerComplete string
  | TrackerGetStats
  | Delay nat
  | SetInterval int
  | Log log_entry

type_synonym 'a promise = "event list \<times> (error + 'a)"

section \<open>Asynchronous calls\<close>

text \<open>
  An async function runs without yielding from one \<^verbatim>\<open>await\<close> to the next. The
  events of a call are therefore grouped in segments: the first segment is made when the
  function is called, up to its first \<^verbatim>\<open>await\<close>; each later segment is made when
  the awaited promise has settled. Between two segments of a call, segments of other
  pending calls may run; inside a segment nothing else runs.
\<close>

type_synonym segments = "event list list"

type_synonym 'a call = "segments \<times> (error + 'a)"

definition firstSegment :: "'a call \<Rightarrow> event list" where
  "firstSegment c = (case fst c of [] \<Rightarrow> [] | s # ss \<Rightarrow> s)"

definition laterSegments :: "'a call \<Rightarrow> segments" where
  "laterSegments c = (case fst c of [] \<Rightarrow> [] | s # ss \<Rightarrow> ss)"

text \<open>
  Code that follows other code: it goes on in the last segment of what came before, and
  what it leaves open is its own last segment.
\<close>

definition andThen :: "segments \<Rightarrow> segments \<Rightarrow> segments" where
  "andThen xs ys =
     (if xs = [] then ys else if ys = [] then xs
      else butlast xs @ [last xs @ hd ys] @ tl ys)"

text \<open>
  The segments of several pending calls, merged. Each step takes the next segment of one
  of the calls that still have a segment to run; \<open>order\<close> says which one, as a position
  among those calls (taken modulo their number; the first one when the list is used up).
  Every merge that keeps the order of the segments of each call is given by some
  \<open>order\<close>.
\<close>

function interleave :: "nat list \<Rightarrow> 'a list list \<Rightarrow> 'a list" where
  "interleave order calls =
     (let live = filter (\<lambda>c. c \<noteq> []) calls in
      if live = [] then []
      else
        (let k = (case order of [] \<Rightarrow> 0 | choice # later \<Rightarrow> choice mod length live)
         in hd (live ! k) # interleave (tl order) (live[k := tl (live ! k)])))"
  by pat_completeness auto
termination
proof (relation "measure (\<lambda>(order, calls). sum_list (map length calls))", goal_cases)
  case 1
  show ?case by simp
next
  case (2 order calls live k)
  have same: "sum_list (map length (filter (\<lambda>c. c \<noteq> []) cs)) = sum_list (map length cs)"
    for cs :: "'a list list"
    by (induction cs) auto
  have ne: "live \<noteq> []" using 2 by simp
  have k: "k < length live"
  proof (cases order)
    case Nil
    then show ?thesis using 2 ne by simp
  next
    case (Cons choice later)
    then show ?thesis using 2 ne by simp
  qed
  have "live ! k \<in> set live" using k by simp
  then have pos: "live ! k \<noteq> []" using 2 by auto
  have upd: "sum_list (map length (live[k := tl (live ! k)]))
          = sum_list ((map length live)[k := length (tl (live ! k))])"
    by (simp add: map_update)
  have "sum_list ((map length live)[k := length (tl (live ! k))])
          = sum_list (map length live) + length (tl (live ! k)) - length (live ! k)"
    using k by (simp add: sum_list_update)
  moreover have "length (live ! k) \<le> sum_list (map length live)"
    using k by (simp add: member_le_sum_list)
  moreover have "length (tl (live ! k)) < length (live ! k)" using pos by (cases "live ! k") auto
  ultimately have "sum_list ((map length live)[k := length (tl (live ! k))])
          < sum_list (map length live)" by linarith
  then have "sum_list (map length (live[k := tl (live ! k)])) < sum_list (map length calls)"
    using 2 same [of calls] upd by simp
  then show ?case by simp
qed


declare interleave.simps [simp del]

text \<open>
  \<^verbatim>\<open>await Promise.all(xs.map(f))\<close>. The calls are all started where the expression
  stands, one after another, each up to its first \<^verbatim>\<open>await\<close>: their first segments
  go on in the segment of the caller. Their later segments run as their promises settle,
  in the order the environment gives. The caller goes on in a new segment when all are
  settled. The result is rejected when the promise of some call is (no call of this
  service is, see \<open>fetchAndStorePrices_fulfilled\<close> and \<open>processChain_fulfilled\<close>).
\<close>

fun allFulfilled :: "(error + 'a) list \<Rightarrow> error + unit" where
  "allFulfilled [] = Inr ()"
| "allFulfilled (r # rs) = (case r of Inl err \<Rightarrow> Inl err | Inr v \<Rightarrow> allFulfilled rs)"

definition promiseAll :: "nat list \<Rightarrow> 'a call list \<Rightarrow> unit call" where
  "promiseAll order calls =
     ([concat (map firstSegment calls)] @ interleave order (map laterSegments calls) @ [[]],
      allFulfilled (map snd calls))"

section \<open>fetchAndStorePrices\<close>

definition zeroAddress :: string where
  "zeroAddress = ''0x0000000000000000000000000000000000000000''"

definition isNativeChain :: "int \<Rightarrow> bool" where
  "isNativeChain cid = (cid = 1 \<or> cid = 10 \<or> cid = 42161 \<or> cid = 8453)"

text \<open>The object literal \<^verbatim>\<open>wethAddresses\<close>, indexed by the chain identifier.\<close>

definition wethAddresses :: "int \<Rightarrow> string option" where
  "wethAddresses cid =
     (if cid = 1 then Some ''0xc02aaa39b223fe8d0a0e5c4f27ead9083c756cc2''
      else if cid = 10 then Some ''0x4200000000000000000000000000000000000006''
      else if cid = 42161 then Some ''0x82af49447d8a07e3bd95bd0d56f35241523fbab1''
      else if cid = 8453 then Some ''0x4200000000000000000000000000000000000006''
      else None)"

definition wethToken :: "int \<Rightarrow> string \<Rightarrow> ERC20Token" where
  "wethToken cid wethAddress =
     \<lparr>address = wethAddress, name = ''Wrapped Ether'', symbol = ''WETH'', decimals = 18,
      chainId = cid\<rparr>"

text \<open>
  Lines 15 to 34: the value of \<^verbatim>\<open>tokensWithNative\<close> when the fetcher is called. A string
  is truthy when it is not empty.
\<close>

definition tokensWithNative :: "int \<Rightarrow> ERC20Token list \<Rightarrow> ERC20Token list" where
  "tokensWithNative cid tokens =
     (if isNativeChain cid then
        (case wethAddresses cid of
           None \<Rightarrow> tokens
         | Some wethAddress \<Rightarrow>
             if wethAddress \<noteq> [] \<and> \<not> list_ex (\<lambda>t. toLowerCase (address t) = wethAddress) tokens
             then tokens @ [wethToken cid wethAddress]
             else tokens)
      else tokens)"

text \<open>
  Lines 39 to 55: the price map after the aliasing step. An object is always truthy, so
  \<^verbatim>\<open>if (wethPrice)\<close> asks whether the key is present.
\<close>

definition addNativeAlias :: "int \<Rightarrow> prices \<Rightarrow> prices" where
  "addNativeAlias cid ps =
     (if isNativeChain cid then
        (case wethAddresses cid of
           None \<Rightarrow> ps
         | Some wethAddress \<Rightarrow>
             (case map_of ps wethAddress of
                None \<Rightarrow> ps
              | Some wethPrice \<Rightarrow>
                  map_set zeroAddress (wethPrice\<lparr>Price.address := zeroAddress\<rparr>) ps))
      else ps)"

text \<open>The body of the \<^verbatim>\<open>try\<close> block: the calls made and whether it threw.\<close>

definition fetchAndStorePrices_try :: "env \<Rightarrow> int \<Rightarrow> ERC20Token list \<Rightarrow> unit promise" where
  "fetchAndStorePrices_try e cid tokens =
     (let withNative = tokensWithNative cid tokens in
      case fetchPrices e cid withNative of
        Inl err \<Rightarrow> ([FetchPrices cid withNative], Inl err)
      | Inr fetched \<Rightarrow>
          (case getPriceStorage e of
             Inl err \<Rightarrow> ([FetchPrices cid withNative, GetPriceStorage], Inl err)
           | Inr _ \<Rightarrow>
               (let pricesArray = map_values (addNativeAlias cid fetched) in
                if length pricesArray > 0 then
                  (case storePrices e cid pricesArray of
                     Inl err \<Rightarrow>
                       ([FetchPrices cid withNative, GetPriceStorage,
                         StorePrices cid pricesArray], Inl err)
                   | Inr _ \<Rightarrow>
                       ([FetchPrices cid withNative, GetPriceStorage,
                         StorePrices cid pricesArray], Inr ()))
                else ([FetchPrices cid withNative, GetPriceStorage], Inr ()))))"

text \<open>The whole function: the handler logs the error and the promise is fulfilled.\<close>

definition fetchAndStorePrices :: "env \<Rightarrow> int \<Rightarrow> ERC20Token list \<Rightarrow> unit promise" where
  "fetchAndStorePrices e cid tokens =
     (case fetchAndStorePrices_try e cid tokens of
        (evs, Inl err) \<Rightarrow> (evs @ [Log (ErrorFetchingPrices cid err)], Inr ())
      | (evs, Inr _) \<Rightarrow> (evs, Inr ()))"

text \<open>
  The one \<^verbatim>\<open>await\<close> of the function follows the call of the fetcher, line 36, which
  is its first event; what the function does once the fetch has settled, it does without
  yielding.
\<close>

definition fetchAndStorePrices_settled :: "env \<Rightarrow> int \<Rightarrow> ERC20Token list \<Rightarrow> event list" where
  "fetchAndStorePrices_settled e cid tokens = drop 1 (fst (fetchAndStorePrices e cid tokens))"

definition fetchAndStorePrices_call :: "env \<Rightarrow> int \<Rightarrow> ERC20Token list \<Rightarrow> unit call" where
  "fetchAndStorePrices_call e cid tokens =
     ([take 1 (fst (fetchAndStorePrices e cid tokens)), fetchAndStorePrices_settled e cid tokens],
      snd (fetchAndStorePrices e cid tokens))"


section \<open>The token array as a mutable object\<close>

text \<open>
  Lines 15 to 34 again, on a store of arrays: a reference is an index into the store, the
  spread \<^verbatim>\<open>[...tokens]\<close> allocates a new array holding the elements of the old one,
  and \<^verbatim>\<open>push\<close> changes the array behind a reference in place. The result is the
  reference bound to \<^verbatim>\<open>tokensWithNative\<close> and the store after line 34.
\<close>

type_synonym 'a store = "'a list list"

definition spread_copy :: "nat \<Rightarrow> 'a store \<Rightarrow> nat \<times> 'a store" where
  "spread_copy r h = (length h, h @ [h ! r])"

definition array_push :: "nat \<Rightarrow> 'a \<Rightarrow> 'a store \<Rightarrow> 'a store" where
  "array_push r x h = h[r := h ! r @ [x]]"

definition tokensWithNative_store ::
  "int \<Rightarrow> nat \<Rightarrow> ERC20Token store \<Rightarrow> nat \<times> ERC20Token store" where
  "tokensWithNative_store cid tokens h =
     (case spread_copy tokens h of
        (withNative, h1) \<Rightarrow>
          if isNativeChain cid then
            (case wethAddresses cid of
               None \<Rightarrow> (withNative, h1)
             | Some wethAddress \<Rightarrow>
                 if wethAddress \<noteq> [] \<and>
                    \<not> list_ex (\<lambda>t. toLowerCase (address t) = wethAddress) (h1 ! withNative)
                 then (withNative, array_push withNative (wethToken cid wethAddress) h1)
                 else (withNative, h1))
          else (withNative, h1))"

section \<open>fetchDiscoveredTokens\<close>

text \<open>
  Modelled from the spec: \<^verbatim>\<open>chunk\<close> is imported from the lodash package, which is not
  among the sources. Section 4.2 of the specification says what the split does: batches
  of the given size, in order, the last one possibly shorter. An empty array, or a size
  below one, gives no batch at all.
\<close>

function chunk :: "'a list \<Rightarrow> nat \<Rightarrow> 'a list list" where
  "chunk xs n = (if xs = [] \<or> n < 1 then [] else take n xs # chunk (drop n xs) n)"
  by pat_completeness auto
termination
  by (relation "measure (\<lambda>(xs, n). length xs)") auto

declare chunk.simps [simp del]

text \<open>
  A number inside a template literal: the decimal digits of an integer, with a minus
  sign when it is negative (JavaScript prints integers this way below \<open>10^21\<close>, which
  chain identifiers are).
\<close>

fun digits :: "nat \<Rightarrow> string" where
  "digits n =
     (if n < 10 then [''0123456789'' ! n]
      else digits (n div 10) @ [''0123456789'' ! (n mod 10)])"

declare digits.simps [simp del]

definition numberToString :: "int \<Rightarrow> string" where
  "numberToString i = (if i < 0 then CHR ''-'' # digits (nat (- i)) else digits (nat i))"

definition batchSize :: nat where
  "batchSize = 500"

definition processingKey :: string where
  "processingKey = ''processing-all''"

definition chainKey :: "int \<Rightarrow> string" where
  "chainKey cid = ''chain-'' @ numberToString cid"

text \<open>
  The \<^verbatim>\<open>for\<close> loop over the batch groups, lines 90 to 104, as the segments it adds to
  the call of the chain. The groups are distinct array objects, so
  \<^verbatim>\<open>batchGroups.indexOf(batchGroup)\<close> is the position \<open>i\<close> of the group in the loop.
  The pause is an \<^verbatim>\<open>await\<close> of a timer. A rejected \<^verbatim>\<open>await\<close> leaves the loop.
\<close>

fun batchGroupLoop ::
  "env \<Rightarrow> int \<Rightarrow> nat \<Rightarrow> nat \<Rightarrow> nat \<Rightarrow> ERC20Token list list list \<Rightarrow> unit call" where
  "batchGroupLoop e cid tokensLength groupsLength i [] = ([[]], Inr ())"
| "batchGroupLoop e cid tokensLength groupsLength i (batchGroup # rest) =
     (case promiseAll (batchOrder e cid i) (map (fetchAndStorePrices_call e cid) batchGroup) of
        (segs, Inl err) \<Rightarrow> (segs, Inl err)
      | (segs, Inr u) \<Rightarrow>
          (let processed = min (i * 3 * batchSize + length batchGroup * batchSize) tokensLength;
               pause = (if int i < int groupsLength - 1 then [[Delay 200], []] else [[]])
           in case batchGroupLoop e cid tokensLength groupsLength (Suc i) rest of
                (segs', r) \<Rightarrow>
                  (andThen (andThen (andThen segs [[TrackerUpdate (chainKey cid) processed]]) pause)
                     segs',
                   r)))"

text \<open>
  The call of the function mapped over the entries, lines 77 to 108, for one chain: its
  segments and the outcome of its promise.
\<close>

definition processChain_call :: "env \<Rightarrow> int \<times> ERC20Token list \<Rightarrow> unit call" where
  "processChain_call e entry =
     (case entry of
        (cid, tokens) \<Rightarrow>
          if length tokens = 0 then ([[TrackerIncrement processingKey]], Inr ())
          else
            (let batches = chunk tokens batchSize;
                 batchGroups = chunk batches 3;
                 started =
                   [[TrackerStart (chainKey cid) ''Fetching Prices'' (length tokens) (Some cid)]]
             in case batchGroupLoop e cid (length tokens) (length batchGroups) 0 batchGroups of
                  (segs, Inl err) \<Rightarrow> (andThen started segs, Inl err)
                | (segs, Inr u) \<Rightarrow>
                    (andThen (andThen started segs)
                       [[TrackerComplete (chainKey cid), TrackerIncrement processingKey]],
                     Inr ())))"

text \<open>The events of the call for one chain, in the order in which they happen.\<close>

definition processChain :: "env \<Rightarrow> int \<times> ERC20Token list \<Rightarrow> unit promise" where
  "processChain e entry = (concat (fst (processChain_call e entry)), snd (processChain_call e entry))"

subsection \<open>The progress tracker\<close>

text \<open>
  Modelled from the spec: the progress tracker is a module of the repository that is not
  among the sources. Section 4.3 of the specification gives its state and operations:
  \<^verbatim>\<open>start\<close> creates or resets the state of a key, \<^verbatim>\<open>update\<close> sets the processed
  count to the larger of the old and the new value, \<^verbatim>\<open>increment\<close> adds one to it,
  \<^verbatim>\<open>complete\<close> closes the state to further writes, \<^verbatim>\<open>getStats\<close> sums over
  the keys. Section 7 says that a failure of a batch (its fetch or its store throws) is
  logged and counted as an error in the tracker. The one thing a batch does on a failure
  is the call of \<^verbatim>\<open>logger.error\<close> of its handler, so the count is taken at that
  call, on the state of the chain of the batch.
\<close>

record ProgressState =
  p_label :: string
  p_total :: nat
  p_processed :: nat
  p_errors :: nat
  p_chainId :: "int option"
  p_completed :: bool

type_synonym tracker = "(string \<times> ProgressState) list"

definition tracker_start :: "string \<Rightarrow> string \<Rightarrow> nat \<Rightarrow> int option \<Rightarrow> tracker \<Rightarrow> tracker" where
  "tracker_start key lbl tot ch tr =
     map_set key \<lparr>p_label = lbl, p_total = tot, p_processed = 0, p_errors = 0, p_chainId = ch,
                  p_completed = False\<rparr> tr"

definition tracker_update :: "string \<Rightarrow> nat \<Rightarrow> tracker \<Rightarrow> tracker" where
  "tracker_update key v tr =
     (case map_of tr key of
        None \<Rightarrow> tr
      | Some st \<Rightarrow>
          if p_completed st then tr
          else map_set key (st\<lparr>p_processed := max (p_processed st) v\<rparr>) tr)"

definition tracker_increment :: "string \<Rightarrow> tracker \<Rightarrow> tracker" where
  "tracker_increment key tr =
     (case map_of tr key of
        None \<Rightarrow> tr
      | Some st \<Rightarrow>
          if p_completed st then tr
          else map_set key (st\<lparr>p_processed := p_processed st + 1\<rparr>) tr)"

definition tracker_complete :: "string \<Rightarrow> tracker \<Rightarrow> tracker" where
  "tracker_complete key tr =
     (case map_of tr key of
        None \<Rightarrow> tr
      | Some st \<Rightarrow> map_set key (st\<lparr>p_completed := True\<rparr>) tr)"

definition tracker_error :: "string \<Rightarrow> tracker \<Rightarrow> tracker" where
  "tracker_error key tr =
     (case map_of tr key of
        None \<Rightarrow> tr
      | Some st \<Rightarrow>
          if p_completed st then tr
          else map_set key (st\<lparr>p_errors := p_errors st + 1\<rparr>) tr)"

definition stats_errors :: "tracker \<Rightarrow> nat" where
  "stats_errors tr = sum_list (map (\<lambda>kv. p_errors (snd kv)) tr)"

text \<open>
  What one event does to the tracker: its own operations, and the error logged by the
  handler of a batch; the other events leave it alone.
\<close>

fun tracker_step :: "tracker \<Rightarrow> event \<Rightarrow> tracker" where
  "tracker_step tr (TrackerStart key lbl tot ch) = tracker_start key lbl tot ch tr"
| "tracker_step tr (TrackerIncrement key) = tracker_increment key tr"
| "tracker_step tr (TrackerUpdate key v) = tracker_update key v tr"
| "tracker_step tr (TrackerComplete key) = tracker_complete key tr"
| "tracker_step tr (Log (ErrorFetchingPrices cid err)) = tracker_error (chainKey cid) tr"
| "tracker_step tr _ = tr"

definition run_tracker :: "tracker \<Rightarrow> event list \<Rightarrow> tracker" where
  "run_tracker tr evs = foldl tracker_step tr evs"

subsection \<open>The pass\<close>

text \<open>
  What \<^verbatim>\<open>fetchDiscoveredTokens\<close> does once the awaited discovery has settled, lines 70
  to 117. The chains are all started in the segment that starts \<open>processing-all\<close>;
  their later segments are merged in the order the environment gives; the pass goes on
  when all are settled. \<open>tr\<close> is the state of the tracker when the pass starts; the
  summary reads the error count from the tracker after the events of the pass.
\<close>

definition fetchDiscoveredTokens_settled ::
  "env \<Rightarrow> tracker \<Rightarrow> bool \<Rightarrow> event list" where
  "fetchDiscoveredTokens_settled e tr forceRefresh =
     (case discoverAllTokens e forceRefresh of
        Inl err \<Rightarrow> [Log (ErrorFetchingDiscovered err)]
      | Inr tokensByChain \<Rightarrow>
          (let totalTokens = foldl (\<lambda>sum entry. sum + length (snd entry)) 0 tokensByChain;
               started = [Log (DiscoveryComplete (length tokensByChain) totalTokens),
                          TrackerStart processingKey ''Processing Chains'' (length tokensByChain) None]
           in case promiseAll (chainOrder e) (map (processChain_call e) tokensByChain) of
                (segs, Inl err) \<Rightarrow> started @ concat segs @ [Log (ErrorFetchingDiscovered err)]
              | (segs, Inr u) \<Rightarrow>
                  (let calls = started @ concat segs @ [TrackerComplete processingKey];
                       errs = stats_errors (run_tracker tr calls)
                   in calls @ [TrackerGetStats, Log (PriceFetchComplete totalTokens errs)])))"

text \<open>
  The function runs up to its first \<^verbatim>\<open>await\<close> when it is called: the call of the
  discovery is made at once, the rest follows when it settles.
\<close>

definition fetchDiscoveredTokens :: "env \<Rightarrow> tracker \<Rightarrow> bool \<Rightarrow> event list" where
  "fetchDiscoveredTokens e tr forceRefresh =
     DiscoverAllTokens forceRefresh # fetchDiscoveredTokens_settled e tr forceRefresh"

section \<open>startPeriodicFetch\<close>

text \<open>
  \<open>now\<close> is the value of \<^verbatim>\<open>Date.now()\<close>, milliseconds since the epoch, read by the
  timer callback.
\<close>

definition shouldRediscover :: "nat \<Rightarrow> int \<Rightarrow> bool" where
  "shouldRediscover now intervalMs = (int (now mod 3600000) < intervalMs)"

definition startPeriodicFetch :: "env \<Rightarrow> tracker \<Rightarrow> int \<Rightarrow> event list" where
  "startPeriodicFetch e tr intervalMs =
     [Log (StartingPriceService intervalMs), DiscoverAllTokens True, SetInterval intervalMs]
       @ fetchDiscoveredTokens_settled e tr True"

definition timerCallback :: "env \<Rightarrow> tracker \<Rightarrow> int \<Rightarrow> nat \<Rightarrow> event list" where
  "timerCallback e tr intervalMs now = fetchDiscoveredTokens e tr (shouldRediscover now intervalMs)"

text \<open>The ticks of the timer, one for each clock reading of the list, each pass after the one before.\<close>

fun timerTicks :: "env \<Rightarrow> tracker \<Rightarrow> int \<Rightarrow> nat list \<Rightarrow> event list" where
  "timerTicks e tr intervalMs [] = []"
| "timerTicks e tr intervalMs (now # nows) =
     (let evs = timerCallback e tr intervalMs now
      in evs @ timerTicks e (run_tracker tr evs) intervalMs nows)"

definition periodicFetch :: "env \<Rightarrow> tracker \<Rightarrow> int \<Rightarrow> nat list \<Rightarrow> event list" where
  "periodicFetch e tr intervalMs nows =
     (let evs = startPeriodicFetch e tr intervalMs
      in evs @ timerTicks e (run_tracker tr evs) intervalMs nows)"

section \<open>Reading a list of events\<close>

text \<open>The flags of the discovery calls among a list of events.\<close>

fun discoveryFlags :: "event list \<Rightarrow> bool list" where
  "discoveryFlags [] = []"
| "discoveryFlags (DiscoverAllTokens b # evs) = b # discoveryFlags evs"
| "discoveryFlags (_ # evs) = discoveryFlags evs"

text \<open>The arguments of the calls of the price fetcher, and of the calls of the storage.\<close>

fun fetcherCalls :: "event list \<Rightarrow> (int \<times> ERC20Token list) list" where
  "fetcherCalls [] = []"
| "fetcherCalls (FetchPrices cid ts # evs) = (cid, ts) # fetcherCalls evs"
| "fetcherCalls (_ # evs) = fetcherCalls evs"

fun storeCalls :: "event list \<Rightarrow> (int \<times> Price list) list" where
  "storeCalls [] = []"
| "storeCalls (StorePrices cid ps # evs) = (cid, ps) # storeCalls evs"
| "storeCalls (_ # evs) = storeCalls evs"

text \<open>The processed counts reported with \<^verbatim>\<open>progressTracker.update\<close>, with their keys.\<close>

fun progressReports :: "event list \<Rightarrow> (string \<times> nat) list" where
  "progressReports [] = []"
| "progressReports (TrackerUpdate key v # evs) = (key, v) # progressReports evs"
| "progressReports (_ # evs) = progressReports evs"

text \<open>Whether an event is a call of the progress tracker, and those calls among a list.\<close>

fun isTrackerCall :: "event \<Rightarrow> bool" where
  "isTrackerCall (TrackerStart key lbl tot ch) = True"
| "isTrackerCall (TrackerIncrement key) = True"
| "isTrackerCall (TrackerUpdate key v) = True"
| "isTrackerCall (TrackerComplete key) = True"
| "isTrackerCall TrackerGetStats = True"
| "isTrackerCall _ = False"

definition trackerCalls :: "event list \<Rightarrow> event list" where
  "trackerCalls evs = filter isTrackerCall evs"

text \<open>Whether an event is an error written to the log.\<close>

fun isErrorLog :: "event \<Rightarrow> bool" where
  "isErrorLog (Log (ErrorFetchingPrices cid err)) = True"
| "isErrorLog (Log (ErrorFetchingDiscovered err)) = True"
| "isErrorLog _ = False"

text \<open>The number of tokens in a group of batches.\<close>

definition groupTokenCount :: "'a list list \<Rightarrow> nat" where
  "groupTokenCount batchGroup = sum_list (map length batchGroup)"

section \<open>Concrete inputs\<close>

text \<open>
  An environment whose fetcher gives the same outcome to every call, whose storage
  accepts every call and in which the first pending call always goes on first; a token and
  two price records on chain 1.
\<close>

definition example_env :: "(error + prices) \<Rightarrow> (int \<times> ERC20Token list) list \<Rightarrow> env" where
  "example_env outcome discovered =
     \<lparr>fetchPrices = (\<lambda>cid ts. outcome), getPriceStorage = Inr (),
      storePrices = (\<lambda>cid ps. Inr ()), discoverAllTokens = (\<lambda>force. Inr discovered),
      batchOrder = (\<lambda>cid i. []), chainOrder = []\<rparr>"

definition example_weth :: string where
  "example_weth = ''0xc02aaa39b223fe8d0a0e5c4f27ead9083c756cc2''"

definition example_token :: "string \<Rightarrow> ERC20Token" where
  "example_token a = \<lparr>address = a, name = ''Dai'', symbol = ''DAI'', decimals = 18, chainId = 1\<rparr>"

text \<open>
  A pass over two chains with one token each, in which the fetch of the second chain
  settles first.
\<close>

definition example_pass_env :: env where
  "example_pass_env =
     (example_env (Inr []) [(1, [example_token ''0xa'']), (10, [example_token ''0xb''])])
       \<lparr>chainOrder := [1, 0]\<rparr>"

definition example_price :: "string \<Rightarrow> rat \<Rightarrow> Price" where
  "example_price a p = \<lparr>Price.address = a, price = p, chainId = 1, metadata = None\<rparr>"

definition example_fetched :: prices where
  "example_fetched =
     [(zeroAddress, example_price zeroAddress 5), (example_weth, example_price example_weth 2000)]"

section \<open>Merged and composed segments\<close>

lemma concat_live: "concat (filter (\<lambda>c. c \<noteq> []) cs) = concat cs"
  by (induction cs) auto

lemma interleave_Nil: "filter (\<lambda>c. c \<noteq> []) calls = [] \<Longrightarrow> interleave order calls = []"
  by (subst interleave.simps) simp

lemma interleave_step:
  assumes "filter (\<lambda>c. c \<noteq> []) calls = live" and "live \<noteq> []"
    and "k = (case order of [] \<Rightarrow> 0 | choice # later \<Rightarrow> choice mod length live)"
  shows "interleave order calls = hd (live ! k) # interleave (tl order) (live[k := tl (live ! k)])"
  using assms by (subst interleave.simps) (simp add: Let_def)

lemma choice_in_range:
  "live \<noteq> [] \<Longrightarrow> (case order of [] \<Rightarrow> 0 | choice # later \<Rightarrow> choice mod length live) < length live"
  by (cases order) simp_all

lemma mset_interleave: "mset (interleave order calls) = mset (concat calls)"
proof (induction order calls rule: interleave.induct)
  case (1 order calls)
  let ?live = "filter (\<lambda>c. c \<noteq> []) calls"
  show ?case
  proof (cases "?live = []")
    case True
    then have "concat calls = []" using concat_live [of calls] by simp
    then show ?thesis using True by (simp add: interleave_Nil)
  next
    case False
    let ?k = "case order of [] \<Rightarrow> 0 | choice # later \<Rightarrow> choice mod length ?live"
    have k: "?k < length ?live" using False by (rule choice_in_range)
    have "?live ! ?k \<in> set ?live" using k by (rule nth_mem)
    then have pos: "?live ! ?k \<noteq> []" by simp
    have step: "interleave order calls =
        hd (?live ! ?k) # interleave (tl order) (?live[?k := tl (?live ! ?k)])"
      using False by (intro interleave_step) simp_all
    have ih: "mset (interleave (tl order) (?live[?k := tl (?live ! ?k)])) =
        mset (concat (?live[?k := tl (?live ! ?k)]))"
      using "1.IH" [OF refl False refl] .
    have split: "?live = take ?k ?live @ ?live ! ?k # drop (Suc ?k) ?live"
      using k by (rule id_take_nth_drop)
    have upd: "?live[?k := tl (?live ! ?k)] = take ?k ?live @ tl (?live ! ?k) # drop (Suc ?k) ?live"
      using k by (rule upd_conv_take_nth_drop)
    have "mset (concat ?live) =
        mset (concat (take ?k ?live)) + mset (?live ! ?k) + mset (concat (drop (Suc ?k) ?live))"
      by (subst split) simp
    moreover have "mset (?live ! ?k) = add_mset (hd (?live ! ?k)) (mset (tl (?live ! ?k)))"
      using pos by (cases "?live ! ?k") simp_all
    moreover have "mset (concat (?live[?k := tl (?live ! ?k)])) =
        mset (concat (take ?k ?live)) + mset (tl (?live ! ?k)) + mset (concat (drop (Suc ?k) ?live))"
      by (subst upd) simp
    ultimately have "add_mset (hd (?live ! ?k)) (mset (concat (?live[?k := tl (?live ! ?k)]))) =
        mset (concat ?live)" by simp
    then show ?thesis using step ih by (simp add: concat_live)
  qed
qed

lemma set_interleave: "set (interleave order calls) = set (concat calls)"
  using mset_interleave [of order calls] by (metis set_mset_mset)

lemma subseq_interleave: "c \<in> set calls \<Longrightarrow> subseq c (interleave order calls)"
proof (induction order calls arbitrary: c rule: interleave.induct)
  case (1 order calls)
  define live where "live = filter (\<lambda>c. c \<noteq> []) calls"
  define k where "k = (case order of [] \<Rightarrow> 0 | choice # later \<Rightarrow> choice mod length live)"
  show ?case
  proof (cases "c = []")
    case True
    then show ?thesis by simp
  next
    case False
    then have c: "c \<in> set live" using "1.prems" by (simp add: live_def)
    then have ne: "live \<noteq> []" by (cases live) simp_all
    have k: "k < length live" unfolding k_def using ne by (rule choice_in_range)
    have step: "interleave order calls = hd (live ! k) # interleave (tl order) (live[k := tl (live ! k)])"
      using ne by (intro interleave_step) (simp_all add: live_def k_def)
    have ih: "subseq c' (interleave (tl order) (live[k := tl (live ! k)]))"
      if "c' \<in> set (live[k := tl (live ! k)])" for c'
      using "1.IH" [OF refl ne [unfolded live_def] refl, of c'] that
      unfolding live_def k_def by simp
    show ?thesis
    proof (cases "c = live ! k")
      case True
      have "tl c \<in> set (live[k := tl (live ! k)])"
        using k True by (simp add: set_update_memI)
      then have "subseq (tl c) (interleave (tl order) (live[k := tl (live ! k)]))" by (rule ih)
      then have "subseq (hd c # tl c) (hd c # interleave (tl order) (live[k := tl (live ! k)]))"
        by simp
      then show ?thesis using step True False by simp
    next
      case other: False
      obtain j where j: "j < length live" "live ! j = c" using c by (auto simp: in_set_conv_nth)
      then have "j \<noteq> k" using other by auto
      then have "(live[k := tl (live ! k)]) ! j = c" using j by simp
      then have "c \<in> set (live[k := tl (live ! k)])"
        using j by (metis length_list_update nth_mem)
      then have "subseq c (interleave (tl order) (live[k := tl (live ! k)]))" by (rule ih)
      then show ?thesis using step by (simp add: list_emb_Cons)
    qed
  qed
qed

lemma concat_andThen: "concat (andThen xs ys) = concat xs @ concat ys"
proof (cases "xs = [] \<or> ys = []")
  case True
  then show ?thesis by (auto simp: andThen_def)
next
  case False
  then have x: "xs = butlast xs @ [last xs]" and y: "ys = hd ys # tl ys" by simp_all
  have "concat xs @ concat ys = concat (butlast xs) @ last xs @ hd ys @ concat (tl ys)"
    by (subst x, subst y) simp
  then show ?thesis using False by (simp add: andThen_def)
qed

lemma andThen_open: "xs \<noteq> [] \<Longrightarrow> andThen xs [[]] = xs"
  by (simp add: andThen_def)

lemma andThen_Cons2: "ys \<noteq> [] \<Longrightarrow> andThen (a # b # xs) ys = a # andThen (b # xs) ys"
  by (simp add: andThen_def)

lemma andThen_single: "andThen [a] (b # ys) = (a @ b) # ys"
  by (simp add: andThen_def)

lemma andThen_not_Nil: "xs \<noteq> [] \<Longrightarrow> andThen xs ys \<noteq> []"
  by (simp add: andThen_def)

section \<open>The split into batches and groups\<close>

lemma chunk_Nil [simp]: "chunk [] n = []" by (simp add: chunk.simps)
lemma chunk_0 [simp]: "chunk xs 0 = []" by (simp add: chunk.simps)

lemma concat_chunk: "0 < n \<Longrightarrow> concat (chunk xs n) = xs"
proof (induction xs n rule: chunk.induct)
  case (1 xs n)
  then show ?case by (subst chunk.simps) auto
qed

lemma length_chunk: "0 < n \<Longrightarrow> length (chunk xs n) = (length xs + n - 1) div n"
proof (induction xs n rule: chunk.induct)
  case (1 xs n)
  show ?case
  proof (cases "xs = []")
    case True then show ?thesis using 1 by simp
  next
    case False
    then have len: "0 < length xs" by simp
    have step: "length (chunk xs n) = Suc (length (chunk (drop n xs) n))"
      using False "1.prems" by (subst chunk.simps) simp
    have ih: "length (chunk (drop n xs) n) = (length xs - n + n - 1) div n"
      using "1.IH" False "1.prems" by simp
    have tail: "(length xs - n + n - 1) div n = (length xs - 1) div n"
    proof (cases "n \<le> length xs")
      case True then show ?thesis by simp
    next
      case False then show ?thesis using len by simp
    qed
    have e: "length xs + n - 1 = (length xs - 1) + n" using len by arith
    have d: "((length xs - 1) + n) div n = Suc ((length xs - 1) div n)"
      using "1.prems" by simp
    show ?thesis by (simp only: step ih tail e d)
  qed
qed

lemma nth_chunk: "0 < n \<Longrightarrow> i < length (chunk xs n) \<Longrightarrow> chunk xs n ! i = take n (drop (i * n) xs)"
proof (induction xs n arbitrary: i rule: chunk.induct)
  case (1 xs n)
  from "1.prems" have ne: "xs \<noteq> []" by (auto simp: chunk.simps)
  have eq: "chunk xs n = take n xs # chunk (drop n xs) n" using ne "1.prems" by (subst chunk.simps) simp
  show ?case
  proof (cases i)
    case 0 then show ?thesis using eq by simp
  next
    case (Suc j)
    then have "j < length (chunk (drop n xs) n)" using "1.prems" eq by simp
    then have "chunk (drop n xs) n ! j = take n (drop (j * n) (drop n xs))"
      using "1.IH" ne "1.prems" by simp
    then show ?thesis using eq Suc by (simp add: add.commute)
  qed
qed


lemma chunk_step: "xs \<noteq> [] \<Longrightarrow> 0 < n \<Longrightarrow> chunk xs n = take n xs # chunk (drop n xs) n"
  by (subst chunk.simps) simp

lemma chunk_eq_Nil: "0 < n \<Longrightarrow> chunk xs n = [] \<longleftrightarrow> xs = []"
  by (subst chunk.simps) simp

lemma chunk_nonempty: "b \<in> set (chunk xs n) \<Longrightarrow> b \<noteq> []"
proof (induction xs n rule: chunk.induct)
  case (1 xs n)
  show ?case
  proof (cases "xs = [] \<or> n < 1")
    case True then show ?thesis using "1.prems" by (simp add: chunk.simps)
  next
    case False
    then have "chunk xs n = take n xs # chunk (drop n xs) n" by (simp add: chunk_step)
    then have "b = take n xs \<or> b \<in> set (chunk (drop n xs) n)" using "1.prems" by simp
    then show ?thesis using False "1.IH" by auto
  qed
qed

lemma chunk_length_le: "b \<in> set (chunk xs n) \<Longrightarrow> length b \<le> n"
proof (induction xs n rule: chunk.induct)
  case (1 xs n)
  show ?case
  proof (cases "xs = [] \<or> n < 1")
    case True then show ?thesis using "1.prems" by (simp add: chunk.simps)
  next
    case False
    then have "chunk xs n = take n xs # chunk (drop n xs) n" by (simp add: chunk_step)
    then have "b = take n xs \<or> b \<in> set (chunk (drop n xs) n)" using "1.prems" by simp
    then show ?thesis using False "1.IH" by auto
  qed
qed

lemma chunk_full_before_last:
  "0 < n \<Longrightarrow> Suc i < length (chunk xs n) \<Longrightarrow> length (chunk xs n ! i) = n"
proof -
  assume n: "0 < n" and i: "Suc i < length (chunk xs n)"
  then have "Suc (Suc i) \<le> (length xs + n - 1) div n" by (simp add: length_chunk)
  then have "Suc (Suc i) * n \<le> length xs + n - 1" using n by (simp add: less_eq_div_iff_mult_less_eq)
  then have "i * n + n \<le> length xs" using n by simp
  moreover have "chunk xs n ! i = take n (drop (i * n) xs)" using n i by (simp add: nth_chunk)
  ultimately show ?thesis by simp
qed

lemma chunk_last_length:
  "0 < n \<Longrightarrow> xs \<noteq> [] \<Longrightarrow>
   length (last (chunk xs n)) = (if length xs mod n = 0 then n else length xs mod n)"
proof (induction xs n rule: chunk.induct)
  case (1 xs n)
  have eq: "chunk xs n = take n xs # chunk (drop n xs) n" using "1.prems" by (simp add: chunk_step)
  show ?case
  proof (cases "drop n xs = []")
    case True
    then have "length xs \<le> n" by simp
    moreover have "last (chunk xs n) = take n xs" using eq True by simp
    ultimately show ?thesis using "1.prems" by (cases "length xs = n") auto
  next
    case False
    then have "chunk (drop n xs) n \<noteq> []" using "1.prems" by (simp add: chunk_eq_Nil)
    then have "last (chunk xs n) = last (chunk (drop n xs) n)" using eq by simp
    moreover have "n \<le> length xs" using False by simp
    then have "(length xs - n) mod n = length xs mod n" by (simp add: le_mod_geq)
    ultimately show ?thesis using "1.IH" "1.prems" False by simp
  qed
qed

lemma ceil_div: "0 < b \<Longrightarrow> nat \<lceil>real a / real b\<rceil> = (a + b - 1) div b"
proof -
  assume b: "0 < b"
  define q where "q = (a + b - 1) div b"
  have lo: "q * b \<le> a + b - 1" unfolding q_def by simp
  have hi: "a + b - 1 < b + q * b" unfolding q_def using b by (rule dividend_less_div_times)
  have up: "a \<le> q * b" using hi b by arith
  have "q * b < a + b" using lo b by arith
  then have "real (q * b) < real (a + b)" by (simp only: of_nat_less_iff)
  then have down: "(real q - 1) * real b < real a" by (simp add: algebra_simps)
  have "real a \<le> real (q * b)" using up by (simp only: of_nat_le_iff)
  then have up': "real a \<le> real q * real b" by simp
  have rb: "0 < real b" using b by simp
  have "\<lceil>real a / real b\<rceil> = int q"
  proof (rule ceiling_unique)
    show "real_of_int (int q) - 1 < real a / real b"
      using down rb by (simp add: pos_less_divide_eq)
    show "real a / real b \<le> real_of_int (int q)"
      using up' rb by (simp add: pos_divide_le_eq)
  qed
  then show ?thesis by (simp add: q_def)
qed

section \<open>The price map\<close>

lemma map_of_map_set: "map_of (map_set k v m) = (map_of m)(k \<mapsto> v)"
  by (induction m) auto

lemma map_set_keys:
  "map fst (map_set k v m) = (if k \<in> set (map fst m) then map fst m else map fst m @ [k])"
proof (induction m)
  case Nil
  show ?case by simp
next
  case (Cons p m)
  obtain k' v' where p: "p = (k', v')" by (cases p)
  show ?case
  proof (cases "k' = k")
    case True
    then show ?thesis using p by simp
  next
    case False
    then show ?thesis using p Cons.IH by (cases "k \<in> fst ` set m") simp_all
  qed
qed

lemma map_set_not_Nil: "map_set k v m \<noteq> []"
  by (cases m) (auto split: if_splits)

lemma map_of_in_values: "map_of m k = Some v \<Longrightarrow> v \<in> set (map_values m)"
  unfolding map_values_def by (metis map_of_SomeD image_eqI set_map snd_conv)

section \<open>The registry\<close>

lemma isNativeChain_weth: "isNativeChain cid \<longleftrightarrow> wethAddresses cid \<noteq> None"
  by (simp add: isNativeChain_def wethAddresses_def)

lemma wethAddresses_cases:
  "wethAddresses cid = Some W \<Longrightarrow>
     W = ''0xc02aaa39b223fe8d0a0e5c4f27ead9083c756cc2'' \<or>
     W = ''0x4200000000000000000000000000000000000006'' \<or>
     W = ''0x82af49447d8a07e3bd95bd0d56f35241523fbab1''"
  by (auto simp: wethAddresses_def split: if_splits)

lemma weth_lower: "wethAddresses cid = Some W \<Longrightarrow> toLowerCase W = W"
  by (drule wethAddresses_cases) (auto simp: toLowerCase_def toLowerChar_def)

lemma weth_not_empty: "wethAddresses cid = Some W \<Longrightarrow> W \<noteq> []"
  by (drule wethAddresses_cases) auto

lemma list_ex_ignoring_case:
  "wethAddresses cid = Some W \<Longrightarrow>
   list_ex (\<lambda>t. toLowerCase (address t) = W) tokens \<longleftrightarrow>
   (\<exists>t \<in> set tokens. eq_ignoring_case (address t) W)"
  by (simp add: list_ex_iff eq_ignoring_case_def weth_lower)

lemma tokensWithNative_registered:
  "wethAddresses cid = Some W \<Longrightarrow>
   tokensWithNative cid tokens =
     (if \<exists>t \<in> set tokens. eq_ignoring_case (address t) W then tokens
      else tokens @ [wethToken cid W])"
  using isNativeChain_weth [of cid]
  by (simp add: tokensWithNative_def list_ex_ignoring_case weth_not_empty)

lemma tokensWithNative_unregistered: "\<not> isNativeChain cid \<Longrightarrow> tokensWithNative cid tokens = tokens"
  by (simp add: tokensWithNative_def)

section \<open>One batch\<close>

lemma fetchAndStorePrices_fulfilled: "snd (fetchAndStorePrices e cid tokens) = Inr ()"
  by (simp add: fetchAndStorePrices_def split: prod.splits sum.splits)

lemma fetcherCalls_batch:
  "fetcherCalls (fst (fetchAndStorePrices e cid tokens)) = [(cid, tokensWithNative cid tokens)]"
  by (simp add: fetchAndStorePrices_def fetchAndStorePrices_try_def Let_def
      split: prod.splits sum.splits)

lemma storeCalls_batch:
  "fetchPrices e cid (tokensWithNative cid tokens) = Inr fetched \<Longrightarrow> getPriceStorage e = Inr () \<Longrightarrow>
   storeCalls (fst (fetchAndStorePrices e cid tokens)) =
     (if addNativeAlias cid fetched = [] then []
      else [(cid, map_values (addNativeAlias cid fetched))])"
  by (simp add: fetchAndStorePrices_def fetchAndStorePrices_try_def Let_def map_values_def
      split: prod.splits sum.splits)

lemma addNativeAlias_present:
  "wethAddresses cid = Some W \<Longrightarrow> map_of fetched W = Some r \<Longrightarrow>
   addNativeAlias cid fetched = map_set zeroAddress (r\<lparr>Price.address := zeroAddress\<rparr>) fetched"
  using isNativeChain_weth [of cid] by (simp add: addNativeAlias_def)

lemma addNativeAlias_absent:
  "wethAddresses cid = Some W \<Longrightarrow> map_of fetched W = None \<Longrightarrow> addNativeAlias cid fetched = fetched"
  by (simp add: addNativeAlias_def)

lemma addNativeAlias_unregistered: "\<not> isNativeChain cid \<Longrightarrow> addNativeAlias cid fetched = fetched"
  by (simp add: addNativeAlias_def)

lemma addNativeAlias_Nil_iff: "addNativeAlias cid fetched = [] \<longleftrightarrow> fetched = []"
  by (auto simp: addNativeAlias_def map_set_not_Nil split: option.splits)

section \<open>Reading appended lists of events\<close>

lemma fetcherCalls_append: "fetcherCalls (xs @ ys) = fetcherCalls xs @ fetcherCalls ys"
  by (induction xs rule: fetcherCalls.induct) auto

lemma storeCalls_append: "storeCalls (xs @ ys) = storeCalls xs @ storeCalls ys"
  by (induction xs rule: storeCalls.induct) auto

lemma progressReports_append: "progressReports (xs @ ys) = progressReports xs @ progressReports ys"
  by (induction xs rule: progressReports.induct) auto

lemma discoveryFlags_append: "discoveryFlags (xs @ ys) = discoveryFlags xs @ discoveryFlags ys"
  by (induction xs rule: discoveryFlags.induct) auto

lemma trackerCalls_append: "trackerCalls (xs @ ys) = trackerCalls xs @ trackerCalls ys"
  by (simp add: trackerCalls_def)

lemma run_tracker_append: "run_tracker tr (xs @ ys) = run_tracker (run_tracker tr xs) ys"
  by (simp add: run_tracker_def)

section \<open>One batch, read\<close>

lemma batch_events_cases:
  "fst (fetchAndStorePrices e cid tokens) =
     (case fetchPrices e cid (tokensWithNative cid tokens) of
        Inl err \<Rightarrow> [FetchPrices cid (tokensWithNative cid tokens), Log (ErrorFetchingPrices cid err)]
      | Inr fetched \<Rightarrow>
          (case getPriceStorage e of
             Inl err \<Rightarrow> [FetchPrices cid (tokensWithNative cid tokens), GetPriceStorage,
                          Log (ErrorFetchingPrices cid err)]
           | Inr u \<Rightarrow>
               if addNativeAlias cid fetched = [] then
                 [FetchPrices cid (tokensWithNative cid tokens), GetPriceStorage]
               else
                 (case storePrices e cid (map_values (addNativeAlias cid fetched)) of
                    Inl err \<Rightarrow> [FetchPrices cid (tokensWithNative cid tokens), GetPriceStorage,
                                 StorePrices cid (map_values (addNativeAlias cid fetched)),
                                 Log (ErrorFetchingPrices cid err)]
                  | Inr u' \<Rightarrow> [FetchPrices cid (tokensWithNative cid tokens), GetPriceStorage,
                                StorePrices cid (map_values (addNativeAlias cid fetched))])))"
  by (simp add: fetchAndStorePrices_def fetchAndStorePrices_try_def Let_def map_values_def
      split: sum.splits)

lemma trackerCalls_batch: "trackerCalls (fst (fetchAndStorePrices e cid tokens)) = []"
  by (simp add: batch_events_cases trackerCalls_def split: sum.splits)

lemma progressReports_batch: "progressReports (fst (fetchAndStorePrices e cid tokens)) = []"
  by (simp add: batch_events_cases split: sum.splits)

lemma discoveryFlags_batch: "discoveryFlags (fst (fetchAndStorePrices e cid tokens)) = []"
  by (simp add: batch_events_cases split: sum.splits)

section \<open>Lists of segments, read\<close>

lemma fetcherCalls_quiet: "\<forall>s \<in> set segs. fetcherCalls s = [] \<Longrightarrow> fetcherCalls (concat segs) = []"
  by (induction segs) (simp_all add: fetcherCalls_append)

lemma progressReports_quiet:
  "\<forall>s \<in> set segs. progressReports s = [] \<Longrightarrow> progressReports (concat segs) = []"
  by (induction segs) (simp_all add: progressReports_append)

lemma discoveryFlags_quiet:
  "\<forall>s \<in> set segs. discoveryFlags s = [] \<Longrightarrow> discoveryFlags (concat segs) = []"
  by (induction segs) (simp_all add: discoveryFlags_append)

lemma trackerCalls_quiet: "\<forall>s \<in> set segs. trackerCalls s = [] \<Longrightarrow> trackerCalls (concat segs) = []"
  by (induction segs) (simp_all add: trackerCalls_def)

lemma discoveryFlags_segment:
  "discoveryFlags (concat segs) = [] \<Longrightarrow> s \<in> set segs \<Longrightarrow> discoveryFlags s = []"
  by (induction segs) (auto simp: discoveryFlags_append)

lemma trackerCalls_Cons:
  "trackerCalls (ev # evs) = (if isTrackerCall ev then [ev] else []) @ trackerCalls evs"
  by (simp add: trackerCalls_def)

lemma trackerCalls_Nil: "trackerCalls [] = []"
  by (simp add: trackerCalls_def)

section \<open>One batch as a call\<close>

lemma batch_first_event:
  "fst (fetchAndStorePrices e cid b) =
     FetchPrices cid (tokensWithNative cid b) # fetchAndStorePrices_settled e cid b"
  by (simp add: fetchAndStorePrices_settled_def batch_events_cases split: sum.splits)

lemma fetchAndStorePrices_call_segments:
  "fetchAndStorePrices_call e cid b =
     ([[FetchPrices cid (tokensWithNative cid b)], fetchAndStorePrices_settled e cid b], Inr ())"
proof -
  have "take 1 (fst (fetchAndStorePrices e cid b)) = [FetchPrices cid (tokensWithNative cid b)]"
    by (simp add: batch_first_event)
  then show ?thesis by (simp add: fetchAndStorePrices_call_def fetchAndStorePrices_fulfilled)
qed

lemma fetcherCalls_settled: "fetcherCalls (fetchAndStorePrices_settled e cid b) = []"
  using fetcherCalls_batch [of e cid b] by (simp add: batch_first_event)

lemma progressReports_settled: "progressReports (fetchAndStorePrices_settled e cid b) = []"
  using progressReports_batch [of e cid b] by (simp add: batch_first_event)

lemma discoveryFlags_settled_batch: "discoveryFlags (fetchAndStorePrices_settled e cid b) = []"
  using discoveryFlags_batch [of e cid b] by (simp add: batch_first_event)

lemma trackerCalls_settled: "trackerCalls (fetchAndStorePrices_settled e cid b) = []"
  using trackerCalls_batch [of e cid b] by (simp add: batch_first_event trackerCalls_Cons)

section \<open>A group of batches\<close>

lemma allFulfilled_all: "\<forall>r \<in> set rs. r = Inr () \<Longrightarrow> allFulfilled rs = Inr ()"
  by (induction rs) simp_all

lemma promiseAll_batches:
  "promiseAll order (map (fetchAndStorePrices_call e cid) g) =
     ([map (\<lambda>b. FetchPrices cid (tokensWithNative cid b)) g]
        @ interleave order (map (\<lambda>b. [fetchAndStorePrices_settled e cid b]) g) @ [[]],
      Inr ())"
proof -
  have f: "concat (map firstSegment (map (fetchAndStorePrices_call e cid) g)) =
      map (\<lambda>b. FetchPrices cid (tokensWithNative cid b)) g"
    by (induction g) (simp_all add: fetchAndStorePrices_call_segments firstSegment_def)
  have l: "map laterSegments (map (fetchAndStorePrices_call e cid) g) =
      map (\<lambda>b. [fetchAndStorePrices_settled e cid b]) g"
    by (simp add: fetchAndStorePrices_call_segments laterSegments_def)
  have r: "allFulfilled (map snd (map (fetchAndStorePrices_call e cid) g)) = Inr ()"
    by (rule allFulfilled_all) (simp add: fetchAndStorePrices_call_segments)
  show ?thesis unfolding promiseAll_def f l r by simp
qed

lemma settled_segments:
  "s \<in> set (interleave order (map (\<lambda>b. [fetchAndStorePrices_settled e cid b]) g)) \<longleftrightarrow>
   (\<exists>b \<in> set g. s = fetchAndStorePrices_settled e cid b)"
  by (auto simp: set_interleave)

lemma fetcherCalls_settled_group:
  "fetcherCalls (concat (interleave order (map (\<lambda>b. [fetchAndStorePrices_settled e cid b]) g))) = []"
  by (rule fetcherCalls_quiet) (auto simp: settled_segments fetcherCalls_settled)

lemma progressReports_settled_group:
  "progressReports (concat (interleave order (map (\<lambda>b. [fetchAndStorePrices_settled e cid b]) g))) = []"
  by (rule progressReports_quiet) (auto simp: settled_segments progressReports_settled)

lemma discoveryFlags_settled_group:
  "discoveryFlags (concat (interleave order (map (\<lambda>b. [fetchAndStorePrices_settled e cid b]) g))) = []"
  by (rule discoveryFlags_quiet) (auto simp: settled_segments discoveryFlags_settled_batch)

lemma trackerCalls_settled_group:
  "trackerCalls (concat (interleave order (map (\<lambda>b. [fetchAndStorePrices_settled e cid b]) g))) = []"
  by (rule trackerCalls_quiet) (auto simp: settled_segments trackerCalls_settled)

lemma fetcherCalls_started_group:
  "fetcherCalls (map (\<lambda>b. FetchPrices cid (tokensWithNative cid b)) g) =
     map (\<lambda>b. (cid, tokensWithNative cid b)) g"
  by (induction g) simp_all

lemma progressReports_started_group:
  "progressReports (map (\<lambda>b. FetchPrices cid (tokensWithNative cid b)) g) = []"
  by (induction g) simp_all

lemma discoveryFlags_started_group:
  "discoveryFlags (map (\<lambda>b. FetchPrices cid (tokensWithNative cid b)) g) = []"
  by (induction g) simp_all

lemma trackerCalls_started_group:
  "trackerCalls (map (\<lambda>b. FetchPrices cid (tokensWithNative cid b)) g) = []"
  by (induction g) (simp_all add: trackerCalls_def)

section \<open>The loop over the groups\<close>

lemma batchGroupLoop_Cons:
  "batchGroupLoop e cid N n i (g # gs) =
     (andThen
        (andThen
           (andThen
              ([map (\<lambda>b. FetchPrices cid (tokensWithNative cid b)) g]
                 @ interleave (batchOrder e cid i) (map (\<lambda>b. [fetchAndStorePrices_settled e cid b]) g)
                 @ [[]])
              [[TrackerUpdate (chainKey cid) (min (i * 3 * batchSize + length g * batchSize) N)]])
           (if int i < int n - 1 then [[Delay 200], []] else [[]]))
        (fst (batchGroupLoop e cid N n (Suc i) gs)),
      snd (batchGroupLoop e cid N n (Suc i) gs))"
  by (simp add: promiseAll_batches Let_def split: prod.splits)

declare batchGroupLoop.simps(2) [simp del]

lemma batchGroupLoop_events:
  "concat (fst (batchGroupLoop e cid N n i (g # gs))) =
     map (\<lambda>b. FetchPrices cid (tokensWithNative cid b)) g
       @ concat (interleave (batchOrder e cid i) (map (\<lambda>b. [fetchAndStorePrices_settled e cid b]) g))
       @ [TrackerUpdate (chainKey cid) (min (i * 3 * batchSize + length g * batchSize) N)]
       @ (if int i < int n - 1 then [Delay 200] else [])
       @ concat (fst (batchGroupLoop e cid N n (Suc i) gs))"
  by (simp add: batchGroupLoop_Cons concat_andThen)

lemma batchGroupLoop_fulfilled: "snd (batchGroupLoop e cid N n i gs) = Inr ()"
  by (induction gs arbitrary: i) (simp_all add: batchGroupLoop_Cons)

lemma fetcherCalls_loop:
  "fetcherCalls (concat (fst (batchGroupLoop e cid N n i gs))) =
     map (\<lambda>b. (cid, tokensWithNative cid b)) (concat gs)"
  by (induction gs arbitrary: i)
    (simp_all add: batchGroupLoop_events fetcherCalls_append fetcherCalls_started_group
      fetcherCalls_settled_group)

lemma progressReports_loop:
  "progressReports (concat (fst (batchGroupLoop e cid N n i gs))) =
     map (\<lambda>j. (chainKey cid, min ((i + j) * 3 * batchSize + length (gs ! j) * batchSize) N))
       [0..<length gs]"
proof (induction gs arbitrary: i)
  case Nil
  show ?case by simp
next
  case (Cons g gs)
  have shift: "[0..<length (g # gs)] = 0 # map Suc [0..<length gs]"
    by (simp add: upt_conv_Cons map_Suc_upt del: upt_Suc)
  show ?case
    unfolding shift
    by (simp add: batchGroupLoop_events progressReports_append progressReports_started_group
        progressReports_settled_group Cons.IH comp_def add.commute add.left_commute)
qed

lemma trackerCalls_loop:
  "trackerCalls (concat (fst (batchGroupLoop e cid N n i gs))) =
     map (\<lambda>kv. TrackerUpdate (fst kv) (snd kv))
       (progressReports (concat (fst (batchGroupLoop e cid N n i gs))))"
proof (induction gs arbitrary: i)
  case Nil
  show ?case by (simp add: trackerCalls_def)
next
  case (Cons g gs)
  have d: "trackerCalls (if int i < int n - 1 then [Delay 200] else []) = []"
    by (simp add: trackerCalls_def)
  have p: "progressReports (if int i < int n - 1 then [Delay 200] else []) = []"
    by simp
  have u: "trackerCalls [TrackerUpdate k v] = [TrackerUpdate k v]" for k v
    by (simp add: trackerCalls_def)
  show ?case
    by (simp only: batchGroupLoop_events trackerCalls_append progressReports_append
        trackerCalls_started_group progressReports_started_group
        trackerCalls_settled_group progressReports_settled_group d p u Cons.IH)
      simp
qed

lemma discoveryFlags_loop: "discoveryFlags (concat (fst (batchGroupLoop e cid N n i gs))) = []"
  by (induction gs arbitrary: i)
    (simp_all add: batchGroupLoop_events discoveryFlags_append discoveryFlags_started_group
      discoveryFlags_settled_group)

section \<open>Groups of batches and their token counts\<close>

lemma drop_chunk: "0 < n \<Longrightarrow> drop k (chunk xs n) = chunk (drop (k * n) xs) n"
proof (induction k arbitrary: xs)
  case 0
  show ?case by simp
next
  case (Suc k)
  show ?case
  proof (cases "xs = []")
    case True
    then show ?thesis by simp
  next
    case False
    then have "drop (Suc k) (chunk xs n) = drop k (chunk (drop n xs) n)"
      using Suc.prems by (simp add: chunk_step)
    also have "\<dots> = chunk (drop (k * n) (drop n xs)) n" using Suc by simp
    finally show ?thesis by (simp add: add.commute)
  qed
qed

lemma concat_take_chunk: "0 < n \<Longrightarrow> concat (take m (chunk xs n)) = take (m * n) xs"
proof (induction m arbitrary: xs)
  case 0
  show ?case by simp
next
  case (Suc m)
  show ?case
  proof (cases "xs = []")
    case True
    then show ?thesis by simp
  next
    case False
    then have "concat (take (Suc m) (chunk xs n)) = take n xs @ concat (take m (chunk (drop n xs) n))"
      using Suc.prems by (simp add: chunk_step)
    also have "\<dots> = take n xs @ take (m * n) (drop n xs)" using Suc by simp
    also have "\<dots> = take (n + m * n) xs" by (simp add: take_add)
    finally show ?thesis by simp
  qed
qed

lemma groupTokenCount_nth:
  assumes "0 < n" and "0 < g" and "j < length (chunk (chunk xs n) g)"
  shows "groupTokenCount (chunk (chunk xs n) g ! j) = min (g * n) (length xs - j * g * n)"
proof -
  have "chunk (chunk xs n) g ! j = take g (drop (j * g) (chunk xs n))"
    using assms by (simp add: nth_chunk)
  also have "\<dots> = take g (chunk (drop (j * g * n) xs) n)"
    using assms(1) by (simp add: drop_chunk)
  finally have "concat (chunk (chunk xs n) g ! j) = take (g * n) (drop (j * g * n) xs)"
    using assms(1) by (simp add: concat_take_chunk)
  then have "length (concat (chunk (chunk xs n) g ! j)) = min (g * n) (length xs - j * g * n)"
    by simp
  then show ?thesis by (simp add: groupTokenCount_def length_concat comp_def)
qed

lemma group_length_nth:
  assumes "0 < g" and "j < length (chunk bs g)"
  shows "length (chunk bs g ! j) = min g (length bs - j * g)"
  using assms by (simp add: nth_chunk)

section \<open>The arithmetic of the reported counts\<close>

lemma batch_count_bounds: "(N::nat) \<le> ((N + 499) div 500) * 500 \<and> ((N + 499) div 500) * 500 < N + 500"
  by arith

lemma group_count_bounds: "(nb::nat) \<le> ((nb + 2) div 3) * 3 \<and> ((nb + 2) div 3) * 3 < nb + 3"
  by arith

lemma reported_closed:
  assumes "(N::nat) \<le> nb * 500" and "nb * 500 < N + 500" and "3 * j < nb"
  shows "min (j * 3 * 500 + min 3 (nb - j * 3) * 500) N = min (Suc j * 1500) N"
proof (cases "j * 3 + 3 \<le> nb")
  case True
  then have "min 3 (nb - j * 3) = 3" by simp
  then show ?thesis by simp
next
  case False
  then have m: "min 3 (nb - j * 3) = nb - j * 3" by simp
  have "j * 3 * 500 + (nb - j * 3) * 500 = nb * 500" using assms(3) by simp
  then have l: "min (j * 3 * 500 + min 3 (nb - j * 3) * 500) N = N"
    unfolding m using assms(1) by simp
  have "N \<le> Suc j * 1500" using assms(1) False by simp
  then show ?thesis using l by simp
qed

lemma spec_closed:
  assumes "(N::nat) \<le> nb * 500" and "nb * 500 < N + 500" and "3 * j < nb"
  shows "min (j * 3 * 500 + min 1500 (N - j * 3 * 500)) N = min (Suc j * 1500) N"
proof (cases "j * 1500 + 1500 \<le> N")
  case True
  then have "min 1500 (N - j * 3 * 500) = 1500" by simp
  then show ?thesis by simp
next
  case False
  then have m: "min 1500 (N - j * 3 * 500) = N - j * 3 * 500" by simp
  have "j * 1500 \<le> N" using assms(2,3) by simp
  then have "j * 3 * 500 + (N - j * 3 * 500) = N" by simp
  then have l: "min (j * 3 * 500 + min 1500 (N - j * 3 * 500)) N = N"
    unfolding m by simp
  have "N \<le> Suc j * 1500" using False by simp
  then show ?thesis using l by simp
qed

lemma before_last_group:
  "(N::nat) \<le> nb * 500 \<Longrightarrow> nb * 500 < N + 500 \<Longrightarrow> ng * 3 < nb + 3 \<Longrightarrow> Suc j < ng \<Longrightarrow>
   Suc j * 1500 < N"
  by simp

lemma last_group:
  "(N::nat) \<le> nb * 500 \<Longrightarrow> nb \<le> ng * 3 \<Longrightarrow> Suc j = ng \<Longrightarrow> N \<le> Suc j * 1500"
  by simp

section \<open>The task of one chain\<close>

lemma andThen_Cons: "xs \<noteq> [] \<Longrightarrow> ys \<noteq> [] \<Longrightarrow> andThen (a # xs) ys = a # andThen xs ys"
  by (simp add: andThen_def)

lemma batchGroupLoop_not_Nil: "fst (batchGroupLoop e cid N n i gs) \<noteq> []"
  by (cases gs) (simp_all add: batchGroupLoop_Cons andThen_not_Nil)

lemma andThen_first:
  assumes "xs \<noteq> []" and "ys \<noteq> []"
  shows "\<exists>later. later \<noteq> [] \<and> andThen (a # xs) ys = a # later"
proof -
  have "andThen (a # xs) ys = a # andThen xs ys" using assms by (rule andThen_Cons)
  moreover have "andThen xs ys \<noteq> []" using assms(1) by (rule andThen_not_Nil)
  ultimately show ?thesis by blast
qed

lemma batchGroupLoop_first:
  "\<exists>later. later \<noteq> [] \<and>
     fst (batchGroupLoop e cid N n i (g # gs)) =
       map (\<lambda>b. FetchPrices cid (tokensWithNative cid b)) g # later"
proof -
  define A where "A = map (\<lambda>b. FetchPrices cid (tokensWithNative cid b)) g"
  define X where
    "X = interleave (batchOrder e cid i) (map (\<lambda>b. [fetchAndStorePrices_settled e cid b]) g) @ [[]]"
  define U where
    "U = [[TrackerUpdate (chainKey cid) (min (i * 3 * batchSize + length g * batchSize) N)]]"
  define P where "P = (if int i < int n - 1 then [[Delay 200], []] else [[]])"
  define R where "R = fst (batchGroupLoop e cid N n (Suc i) gs)"
  have x: "X \<noteq> []" by (simp add: X_def)
  have u: "U \<noteq> []" by (simp add: U_def)
  have p: "P \<noteq> []" by (simp add: P_def)
  have r: "R \<noteq> []" unfolding R_def by (rule batchGroupLoop_not_Nil)
  obtain l1 where l1: "l1 \<noteq> []" "andThen (A # X) U = A # l1"
    using andThen_first [OF x u] by blast
  obtain l2 where l2: "l2 \<noteq> []" "andThen (A # l1) P = A # l2"
    using andThen_first [OF l1(1) p] by blast
  obtain l3 where l3: "l3 \<noteq> []" "andThen (A # l2) R = A # l3"
    using andThen_first [OF l2(1) r] by blast
  have "fst (batchGroupLoop e cid N n i (g # gs)) = andThen (andThen (andThen (A # X) U) P) R"
    by (simp add: batchGroupLoop_Cons A_def X_def U_def P_def R_def)
  then have "fst (batchGroupLoop e cid N n i (g # gs)) = A # l3"
    by (simp only: l1(2) l2(2) l3(2))
  then show ?thesis using l3(1) unfolding A_def by blast
qed

lemma processChain_call_empty:
  "processChain_call e (cid, []) = ([[TrackerIncrement processingKey]], Inr ())"
  by (simp add: processChain_call_def)

lemma processChain_empty: "processChain e (cid, []) = ([TrackerIncrement processingKey], Inr ())"
  by (simp add: processChain_def processChain_call_empty)

lemma processChain_call_tokens:
  assumes "tokens \<noteq> []"
  shows "processChain_call e (cid, tokens) =
     (andThen
        (andThen [[TrackerStart (chainKey cid) ''Fetching Prices'' (length tokens) (Some cid)]]
           (fst (batchGroupLoop e cid (length tokens) (length (chunk (chunk tokens batchSize) 3)) 0
                  (chunk (chunk tokens batchSize) 3))))
        [[TrackerComplete (chainKey cid), TrackerIncrement processingKey]],
      Inr ())"
proof -
  let ?loop = "batchGroupLoop e cid (length tokens) (length (chunk (chunk tokens batchSize) 3)) 0
                (chunk (chunk tokens batchSize) 3)"
  have "snd ?loop = Inr ()" by (rule batchGroupLoop_fulfilled)
  then obtain segs where l: "?loop = (segs, Inr ())" by (cases ?loop) simp
  show ?thesis using assms by (simp add: processChain_call_def Let_def l)
qed

lemma processChain_tokens:
  assumes "tokens \<noteq> []"
  shows "processChain e (cid, tokens) =
     (TrackerStart (chainKey cid) ''Fetching Prices'' (length tokens) (Some cid)
        # concat (fst (batchGroupLoop e cid (length tokens)
                    (length (chunk (chunk tokens batchSize) 3)) 0
                    (chunk (chunk tokens batchSize) 3)))
        @ [TrackerComplete (chainKey cid), TrackerIncrement processingKey],
      Inr ())"
  by (simp add: processChain_def processChain_call_tokens [OF assms] concat_andThen)

lemma chunk_groups_not_Nil: "tokens \<noteq> [] \<Longrightarrow> chunk (chunk tokens batchSize) 3 \<noteq> []"
  by (simp add: chunk_eq_Nil batchSize_def)

lemma processChain_call_first:
  assumes "tokens \<noteq> []"
  shows "\<exists>later. fst (processChain_call e (cid, tokens)) =
     (TrackerStart (chainKey cid) ''Fetching Prices'' (length tokens) (Some cid)
        # map (\<lambda>b. FetchPrices cid (tokensWithNative cid b)) (hd (chunk (chunk tokens batchSize) 3)))
     # later"
proof -
  obtain g gs where gs: "chunk (chunk tokens batchSize) 3 = g # gs"
    using chunk_groups_not_Nil [OF assms] by (cases "chunk (chunk tokens batchSize) 3") auto
  obtain later where later: "later \<noteq> []"
    "fst (batchGroupLoop e cid (length tokens) (length (g # gs)) 0 (g # gs)) =
       map (\<lambda>b. FetchPrices cid (tokensWithNative cid b)) g # later"
    using batchGroupLoop_first by blast
  have "fst (processChain_call e (cid, tokens)) =
      (TrackerStart (chainKey cid) ''Fetching Prices'' (length tokens) (Some cid)
         # map (\<lambda>b. FetchPrices cid (tokensWithNative cid b)) g)
      # andThen later [[TrackerComplete (chainKey cid), TrackerIncrement processingKey]]"
    using later by (simp add: processChain_call_tokens [OF assms] gs andThen_single andThen_Cons)
  then show ?thesis using gs by simp
qed

lemma processChain_call_fulfilled: "snd (processChain_call e entry) = Inr ()"
  by (cases entry; cases "snd entry = []")
    (simp_all add: processChain_call_empty processChain_call_tokens)

lemma processChain_fulfilled: "snd (processChain e entry) = Inr ()"
  by (simp add: processChain_def processChain_call_fulfilled)

lemma processChain_call_not_Nil: "fst (processChain_call e entry) \<noteq> []"
  by (cases entry; cases "snd entry = []")
    (simp_all add: processChain_call_empty processChain_call_tokens andThen_not_Nil)

lemma processChain_call_split:
  "fst (processChain_call e entry) =
     firstSegment (processChain_call e entry) # laterSegments (processChain_call e entry)"
  using processChain_call_not_Nil [of e entry]
  by (cases "fst (processChain_call e entry)") (simp_all add: firstSegment_def laterSegments_def)

lemma group_index_bound:
  assumes "j < length (chunk bs 3)"
  shows "3 * j < length bs"
proof -
  have "length (chunk bs 3) = (length bs + 2) div 3" by (simp add: length_chunk)
  then have "Suc j * 3 \<le> ((length bs + 2) div 3) * 3" using assms by simp
  then show ?thesis using group_count_bounds [of "length bs"] by simp
qed

lemma progressReports_chain:
  "progressReports (fst (processChain e (cid, tokens))) =
     map (\<lambda>j. (chainKey cid,
                min (j * 3 * batchSize + length (chunk (chunk tokens batchSize) 3 ! j) * batchSize)
                  (length tokens)))
       [0..<length (chunk (chunk tokens batchSize) 3)]"
proof (cases "tokens = []")
  case True
  then show ?thesis by (simp add: processChain_empty)
next
  case False
  then show ?thesis
    by (simp add: processChain_tokens progressReports_append progressReports_loop)
qed

lemma reported_value:
  assumes "j < length (chunk (chunk tokens batchSize) 3)"
  shows "min (j * 3 * batchSize + length (chunk (chunk tokens batchSize) 3 ! j) * batchSize)
           (length tokens) = min (Suc j * 1500) (length tokens)"
    and "min (j * 3 * batchSize + groupTokenCount (chunk (chunk tokens batchSize) 3 ! j))
           (length tokens) = min (Suc j * 1500) (length tokens)"
proof -
  let ?N = "length tokens"
  let ?nb = "length (chunk tokens batchSize)"
  have nb: "?nb = (?N + 499) div 500" by (simp add: length_chunk batchSize_def)
  have b1: "?N \<le> ?nb * 500" and b2: "?nb * 500 < ?N + 500"
    using batch_count_bounds [of ?N] nb by simp_all
  have j: "3 * j < ?nb" using assms by (rule group_index_bound)
  have len: "length (chunk (chunk tokens batchSize) 3 ! j) = min 3 (?nb - j * 3)"
    using assms by (simp add: group_length_nth)
  have cnt: "groupTokenCount (chunk (chunk tokens batchSize) 3 ! j) = min 1500 (?N - j * 3 * 500)"
    using assms groupTokenCount_nth [of batchSize 3 j tokens] by (simp add: batchSize_def)
  show "min (j * 3 * batchSize + length (chunk (chunk tokens batchSize) 3 ! j) * batchSize) ?N
          = min (Suc j * 1500) ?N"
    unfolding len using reported_closed [OF b1 b2 j] by (simp add: batchSize_def)
  show "min (j * 3 * batchSize + groupTokenCount (chunk (chunk tokens batchSize) 3 ! j)) ?N
          = min (Suc j * 1500) ?N"
    unfolding cnt using spec_closed [OF b1 b2 j] by (simp add: batchSize_def)
qed

lemma progressReports_closed:
  "progressReports (fst (processChain e (cid, tokens))) =
     map (\<lambda>j. (chainKey cid, min (Suc j * 1500) (length tokens)))
       [0..<length (chunk (chunk tokens batchSize) 3)]"
  unfolding progressReports_chain by (rule map_cong [OF refl]) (simp add: reported_value(1))

lemma sorted_reports: "sorted (map (\<lambda>j. min (Suc j * 1500) (N::nat)) [0..<n])"
proof -
  have "sorted_wrt (\<lambda>x y. min (Suc x * 1500) N \<le> min (Suc y * 1500) N) [0..<n]"
    by (rule sorted_wrt_mono_rel [where P = "(<)"]) (auto simp: min_def)
  then show ?thesis by (simp add: sorted_map)
qed

lemma fetcherCalls_chain:
  "fetcherCalls (fst (processChain e (cid, tokens))) =
     map (\<lambda>b. (cid, tokensWithNative cid b)) (chunk tokens batchSize)"
proof (cases "tokens = []")
  case True
  then show ?thesis by (simp add: processChain_empty)
next
  case False
  have "concat (chunk (chunk tokens batchSize) 3) = chunk tokens batchSize"
    by (simp add: concat_chunk)
  then show ?thesis using False
    by (simp add: processChain_tokens fetcherCalls_append fetcherCalls_loop)
qed

lemma discoveryFlags_chain: "discoveryFlags (fst (processChain e entry)) = []"
proof (cases entry)
  case (Pair cid tokens)
  then show ?thesis
    by (cases "tokens = []")
      (simp_all add: processChain_empty processChain_tokens discoveryFlags_append
        discoveryFlags_loop)
qed

lemma trackerCalls_chain:
  "tokens \<noteq> [] \<Longrightarrow>
   trackerCalls (fst (processChain e (cid, tokens))) =
     TrackerStart (chainKey cid) ''Fetching Prices'' (length tokens) (Some cid)
       # map (\<lambda>kv. TrackerUpdate (fst kv) (snd kv))
           (progressReports (fst (processChain e (cid, tokens))))
       @ [TrackerComplete (chainKey cid), TrackerIncrement processingKey]"
  by (simp add: processChain_tokens trackerCalls_Cons trackerCalls_append progressReports_append
      trackerCalls_loop trackerCalls_Nil)

section \<open>The pass\<close>

lemma promiseAll_chains:
  "promiseAll order (map (processChain_call e) tokensByChain) =
     ([concat (map (\<lambda>entry. firstSegment (processChain_call e entry)) tokensByChain)]
        @ interleave order (map (\<lambda>entry. laterSegments (processChain_call e entry)) tokensByChain)
        @ [[]],
      Inr ())"
proof -
  have r: "allFulfilled (map snd (map (processChain_call e) tokensByChain)) = Inr ()"
    by (rule allFulfilled_all) (simp add: processChain_call_fulfilled)
  show ?thesis unfolding promiseAll_def r by (simp add: comp_def)
qed

lemma discoveryFlags_chain_segment:
  "s \<in> set (fst (processChain_call e entry)) \<Longrightarrow> discoveryFlags s = []"
proof -
  assume s: "s \<in> set (fst (processChain_call e entry))"
  have "discoveryFlags (concat (fst (processChain_call e entry))) = []"
    using discoveryFlags_chain [of e entry] by (simp add: processChain_def)
  then show ?thesis using s by (rule discoveryFlags_segment)
qed

lemma discoveryFlags_chains_first:
  "discoveryFlags (concat (map (\<lambda>entry. firstSegment (processChain_call e entry)) tokensByChain)) = []"
proof (rule discoveryFlags_quiet, rule ballI)
  fix s
  assume "s \<in> set (map (\<lambda>entry. firstSegment (processChain_call e entry)) tokensByChain)"
  then obtain entry where "s = firstSegment (processChain_call e entry)" by auto
  then have "s \<in> set (fst (processChain_call e entry))"
    by (subst processChain_call_split) simp
  then show "discoveryFlags s = []" by (rule discoveryFlags_chain_segment)
qed

lemma discoveryFlags_chains_later:
  "discoveryFlags (concat (interleave order
      (map (\<lambda>entry. laterSegments (processChain_call e entry)) tokensByChain))) = []"
proof (rule discoveryFlags_quiet, rule ballI)
  fix s
  assume "s \<in> set (interleave order
      (map (\<lambda>entry. laterSegments (processChain_call e entry)) tokensByChain))"
  then obtain entry where "s \<in> set (laterSegments (processChain_call e entry))"
    by (auto simp: set_interleave)
  then have "s \<in> set (fst (processChain_call e entry))"
    by (subst processChain_call_split) simp
  then show "discoveryFlags s = []" by (rule discoveryFlags_chain_segment)
qed

lemma settled_discovered:
  assumes "discoverAllTokens e forceRefresh = Inr tokensByChain"
  shows "\<exists>total errs.
     fetchDiscoveredTokens_settled e tr forceRefresh =
       [Log (DiscoveryComplete (length tokensByChain) total),
        TrackerStart processingKey ''Processing Chains'' (length tokensByChain) None]
       @ concat (map (\<lambda>entry. firstSegment (processChain_call e entry)) tokensByChain)
       @ concat (interleave (chainOrder e)
           (map (\<lambda>entry. laterSegments (processChain_call e entry)) tokensByChain))
       @ [TrackerComplete processingKey, TrackerGetStats, Log (PriceFetchComplete total errs)]"
  using assms by (simp add: fetchDiscoveredTokens_settled_def promiseAll_chains Let_def)

lemma discoveryFlags_settled: "discoveryFlags (fetchDiscoveredTokens_settled e tr forceRefresh) = []"
proof (cases "discoverAllTokens e forceRefresh")
  case (Inl err)
  then show ?thesis by (simp add: fetchDiscoveredTokens_settled_def)
next
  case (Inr tokensByChain)
  from settled_discovered [OF this, of tr] obtain total errs where
    "fetchDiscoveredTokens_settled e tr forceRefresh =
       [Log (DiscoveryComplete (length tokensByChain) total),
        TrackerStart processingKey ''Processing Chains'' (length tokensByChain) None]
       @ concat (map (\<lambda>entry. firstSegment (processChain_call e entry)) tokensByChain)
       @ concat (interleave (chainOrder e)
           (map (\<lambda>entry. laterSegments (processChain_call e entry)) tokensByChain))
       @ [TrackerComplete processingKey, TrackerGetStats, Log (PriceFetchComplete total errs)]"
    by blast
  then show ?thesis
    by (simp add: discoveryFlags_append discoveryFlags_chains_first discoveryFlags_chains_later)
qed

lemma discoveryFlags_pass: "discoveryFlags (fetchDiscoveredTokens e tr forceRefresh) = [forceRefresh]"
  by (simp add: fetchDiscoveredTokens_def discoveryFlags_settled)

lemma discoveryFlags_ticks:
  "discoveryFlags (timerTicks e tr intervalMs nows) =
     map (\<lambda>now. int (now mod 3600000) < intervalMs) nows"
  by (induction nows arbitrary: tr)
    (simp_all add: Let_def timerCallback_def discoveryFlags_append discoveryFlags_pass
      shouldRediscover_def)

section \<open>Errors in the tracker\<close>





section \<open>The claims\<close>

text \<open>
  C6. A token list of length N is split into \<open>ceil(N / 500)\<close> batches whose concatenation is
  the list; every batch but the last has 500 tokens, the last has \<open>N mod 500\<close> tokens, or
  500 when N is a multiple of 500; no batch is empty; the batches are grouped into
  \<open>ceil(batches / 3)\<close> groups of at most three batches each, in order.
\<close>

theorem batches_and_groups:
  "let N = length tokens;
       batches = chunk tokens batchSize;
       batchGroups = chunk batches 3
   in length batches = nat \<lceil>real N / real batchSize\<rceil> \<and>
      concat batches = tokens \<and>
      (\<forall>i. Suc i < length batches \<longrightarrow> length (batches ! i) = batchSize) \<and>
      (0 < N \<longrightarrow>
         length (last batches) = (if N mod batchSize = 0 then batchSize else N mod batchSize)) \<and>
      (\<forall>b \<in> set batches. b \<noteq> []) \<and>
      length batchGroups = nat \<lceil>real (length batches) / 3\<rceil> \<and>
      (\<forall>g \<in> set batchGroups. length g \<le> 3) \<and>
      concat batchGroups = batches"
proof -
  have B: "0 < batchSize" by (simp add: batchSize_def)
  have c1: "length (chunk tokens batchSize) = nat \<lceil>real (length tokens) / real batchSize\<rceil>"
    using B by (simp only: length_chunk ceil_div)
  have c2: "concat (chunk tokens batchSize) = tokens" using B by (rule concat_chunk)
  have c3: "\<forall>i. Suc i < length (chunk tokens batchSize) \<longrightarrow>
              length (chunk tokens batchSize ! i) = batchSize"
    using B by (simp add: chunk_full_before_last)
  have c4: "0 < length tokens \<longrightarrow>
      length (last (chunk tokens batchSize)) =
        (if length tokens mod batchSize = 0 then batchSize else length tokens mod batchSize)"
    using B chunk_last_length [of batchSize tokens] by simp
  have c5: "\<forall>b \<in> set (chunk tokens batchSize). b \<noteq> []" by (simp add: chunk_nonempty)
  have "length (chunk (chunk tokens batchSize) 3) =
          nat \<lceil>real (length (chunk tokens batchSize)) / real (3::nat)\<rceil>"
    by (simp only: length_chunk ceil_div zero_less_numeral)
  then have c6: "length (chunk (chunk tokens batchSize) 3) =
          nat \<lceil>real (length (chunk tokens batchSize)) / 3\<rceil>" by simp
  have c7: "\<forall>g \<in> set (chunk (chunk tokens batchSize) 3). length g \<le> 3"
    by (simp add: chunk_length_le)
  have c8: "concat (chunk (chunk tokens batchSize) 3) = chunk tokens batchSize"
    by (simp add: concat_chunk)
  show ?thesis unfolding Let_def using c1 c2 c3 c4 c5 c6 c7 c8 by blast
qed

theorem batches_and_groups_witness:
  "length (chunk (replicate 1200 (0::nat)) batchSize) = 3 \<and>
   concat (chunk (replicate 1200 (0::nat)) batchSize) = replicate 1200 0 \<and>
   length (chunk (replicate 1200 (0::nat)) batchSize ! 0) = 500 \<and>
   length (chunk (replicate 1200 (0::nat)) batchSize ! 1) = 500 \<and>
   length (last (chunk (replicate 1200 (0::nat)) batchSize)) = 200 \<and>
   length (chunk (chunk (replicate 1200 (0::nat)) batchSize) 3) = 1"
proof -
  note t = batches_and_groups [of "replicate 1200 (0::nat)", unfolded Let_def]
  have n: "length (chunk (replicate 1200 (0::nat)) batchSize) = 3"
    using t by (simp add: batchSize_def)
  have g: "length (chunk (chunk (replicate 1200 (0::nat)) batchSize) 3) = 1"
    using t n by simp
  have l: "length (last (chunk (replicate 1200 (0::nat)) batchSize)) = 200"
    using t by (simp add: batchSize_def)
  have b0: "length (chunk (replicate 1200 (0::nat)) batchSize ! 0) = 500"
    using t n by (simp add: batchSize_def)
  have b1: "length (chunk (replicate 1200 (0::nat)) batchSize ! 1) = 500"
    using t n by (simp add: batchSize_def)
  show ?thesis using t n g l b0 b1 by simp
qed

text \<open>
  C5. On a registered network (chain 1, 10, 42161 or 8453) with wrapped-native address W,
  the price fetcher is called once, with the input list when some token of the list has an
  address equal to W up to the case of letters, and otherwise with the input list followed
  by one synthetic token for W (name Wrapped Ether, symbol WETH, 18 decimals, the chain
  identifier of the network). On every other network the fetcher is called once, with
  the input list.
\<close>

theorem fetcher_token_list:
  "(cid \<in> {1, 10, 42161, 8453} \<longrightarrow>
      (\<exists>W. wethAddresses cid = Some W \<and>
         fetcherCalls (fst (fetchAndStorePrices e cid tokens)) =
           [(cid,
             if \<exists>t \<in> set tokens. eq_ignoring_case (address t) W then tokens
             else tokens @ [\<lparr>address = W, name = ''Wrapped Ether'', symbol = ''WETH'',
                             decimals = 18, chainId = cid\<rparr>])])) \<and>
   (cid \<notin> {1, 10, 42161, 8453} \<longrightarrow>
      fetcherCalls (fst (fetchAndStorePrices e cid tokens)) = [(cid, tokens)])"
proof (cases "isNativeChain cid")
  case True
  then obtain W where W: "wethAddresses cid = Some W"
    by (auto simp: isNativeChain_weth)
  have "cid \<in> {1, 10, 42161, 8453}" using True by (simp add: isNativeChain_def)
  then show ?thesis
    using W by (simp add: fetcherCalls_batch tokensWithNative_registered wethToken_def)
next
  case False
  then have "cid \<notin> {1, 10, 42161, 8453}" by (simp add: isNativeChain_def)
  then show ?thesis using False by (simp add: fetcherCalls_batch tokensWithNative_unregistered)
qed

theorem fetcher_token_list_witness:
  "fetcherCalls (fst (fetchAndStorePrices (example_env (Inr []) []) 1 [example_token ''0xabc''])) =
     [(1, [example_token ''0xabc'',
           \<lparr>address = ''0xc02aaa39b223fe8d0a0e5c4f27ead9083c756cc2'', name = ''Wrapped Ether'',
            symbol = ''WETH'', decimals = 18, chainId = 1\<rparr>])] \<and>
   fetcherCalls (fst (fetchAndStorePrices (example_env (Inr []) []) 1
       [example_token ''0xC02AAA39B223FE8D0A0E5C4F27EAD9083C756CC2''])) =
     [(1, [example_token ''0xC02AAA39B223FE8D0A0E5C4F27EAD9083C756CC2''])] \<and>
   fetcherCalls (fst (fetchAndStorePrices (example_env (Inr []) []) 137 [example_token ''0xabc''])) =
     [(137, [example_token ''0xabc''])]"
proof -
  have a: "fetcherCalls (fst (fetchAndStorePrices (example_env (Inr []) []) 1 [example_token ''0xabc''])) =
     [(1, [example_token ''0xabc'',
           \<lparr>address = ''0xc02aaa39b223fe8d0a0e5c4f27ead9083c756cc2'', name = ''Wrapped Ether'',
            symbol = ''WETH'', decimals = 18, chainId = 1\<rparr>])]"
    using fetcher_token_list [of 1 "example_env (Inr []) []" "[example_token ''0xabc'']"]
    by (simp add: wethAddresses_def example_token_def eq_ignoring_case_def toLowerCase_def
        toLowerChar_def)
  have b: "fetcherCalls (fst (fetchAndStorePrices (example_env (Inr []) []) 1
       [example_token ''0xC02AAA39B223FE8D0A0E5C4F27EAD9083C756CC2''])) =
     [(1, [example_token ''0xC02AAA39B223FE8D0A0E5C4F27EAD9083C756CC2''])]"
    using fetcher_token_list [of 1 "example_env (Inr []) []"
        "[example_token ''0xC02AAA39B223FE8D0A0E5C4F27EAD9083C756CC2'']"]
    by (simp add: wethAddresses_def example_token_def eq_ignoring_case_def toLowerCase_def
        toLowerChar_def)
  have c: "fetcherCalls (fst (fetchAndStorePrices (example_env (Inr []) []) 137 [example_token ''0xabc''])) =
     [(137, [example_token ''0xabc''])]"
    using fetcher_token_list [of 137 "example_env (Inr []) []" "[example_token ''0xabc'']"]
    by simp
  show ?thesis using a b c by blast
qed

text \<open>
  C1. On a registered network with wrapped-native address W, when the fetcher returns a
  price map and the storage is available: if the map has a record for W, the storage is
  called once with the values of the map after the aliasing step, and that map has, under
  the zero address, a record among those values whose price is the price of the record
  of W and whose address field is the zero address (the record of W with the address
  replaced); if the map has no record for W, the aliasing step leaves the map as it is,
  and the storage receives its values (or is not called when the map is empty).
\<close>

theorem native_alias:
  assumes "cid \<in> {1, 10, 42161, 8453}"
    and "wethAddresses cid = Some W"
    and "fetchPrices e cid (tokensWithNative cid tokens) = Inr fetched"
    and "getPriceStorage e = Inr ()"
  shows "(\<forall>r. map_of fetched W = Some r \<longrightarrow>
            (\<exists>a. storeCalls (fst (fetchAndStorePrices e cid tokens)) =
                    [(cid, map_values (addNativeAlias cid fetched))] \<and>
                 map_of (addNativeAlias cid fetched) zeroAddress = Some a \<and>
                 a \<in> set (map_values (addNativeAlias cid fetched)) \<and>
                 price a = price r \<and> Price.address a = zeroAddress \<and>
                 a = r\<lparr>Price.address := zeroAddress\<rparr>)) \<and>
         (map_of fetched W = None \<longrightarrow>
            addNativeAlias cid fetched = fetched \<and>
            storeCalls (fst (fetchAndStorePrices e cid tokens)) =
              (if fetched = [] then [] else [(cid, map_values fetched)]))"
proof (intro conjI allI impI)
  fix r
  assume r: "map_of fetched W = Some r"
  let ?a = "r\<lparr>Price.address := zeroAddress\<rparr>"
  have al: "addNativeAlias cid fetched = map_set zeroAddress ?a fetched"
    using assms(2) r by (rule addNativeAlias_present)
  have m: "map_of (addNativeAlias cid fetched) zeroAddress = Some ?a"
    by (simp add: al map_of_map_set)
  have s: "storeCalls (fst (fetchAndStorePrices e cid tokens)) =
             [(cid, map_values (addNativeAlias cid fetched))]"
    using storeCalls_batch [OF assms(3,4)] by (simp add: al map_set_not_Nil)
  show "\<exists>a. storeCalls (fst (fetchAndStorePrices e cid tokens)) =
                    [(cid, map_values (addNativeAlias cid fetched))] \<and>
                 map_of (addNativeAlias cid fetched) zeroAddress = Some a \<and>
                 a \<in> set (map_values (addNativeAlias cid fetched)) \<and>
                 price a = price r \<and> Price.address a = zeroAddress \<and>
                 a = r\<lparr>Price.address := zeroAddress\<rparr>"
    using s m map_of_in_values [OF m] by (intro exI [of _ ?a]) simp
next
  assume n: "map_of fetched W = None"
  show "addNativeAlias cid fetched = fetched" using assms(2) n by (rule addNativeAlias_absent)
  then show "storeCalls (fst (fetchAndStorePrices e cid tokens)) =
              (if fetched = [] then [] else [(cid, map_values fetched)])"
    using storeCalls_batch [OF assms(3,4)] by simp
qed

theorem native_alias_witness:
  "storeCalls (fst (fetchAndStorePrices (example_env (Inr example_fetched) []) 1 [])) =
     [(1, map_values (addNativeAlias 1 example_fetched))] \<and>
   map_of (addNativeAlias 1 example_fetched) zeroAddress = Some (example_price zeroAddress 2000) \<and>
   example_price zeroAddress 2000 \<in> set (map_values (addNativeAlias 1 example_fetched)) \<and>
   addNativeAlias 1 [(zeroAddress, example_price zeroAddress 5)] =
     [(zeroAddress, example_price zeroAddress 5)] \<and>
   storeCalls (fst (fetchAndStorePrices
       (example_env (Inr [(zeroAddress, example_price zeroAddress 5)]) []) 1 [])) =
     [(1, [example_price zeroAddress 5])]"
proof -
  have w: "wethAddresses 1 = Some example_weth"
    by (simp add: wethAddresses_def example_weth_def)
  have p: "map_of example_fetched example_weth = Some (example_price example_weth 2000)"
    by (simp add: example_fetched_def example_weth_def zeroAddress_def)
  have a: "example_price example_weth 2000\<lparr>Price.address := zeroAddress\<rparr> =
           example_price zeroAddress 2000"
    by (simp add: example_price_def)
  have n: "map_of [(zeroAddress, example_price zeroAddress 5)] example_weth = None"
    by (simp add: example_weth_def zeroAddress_def)
  have t1: "storeCalls (fst (fetchAndStorePrices (example_env (Inr example_fetched) []) 1 [])) =
        [(1, map_values (addNativeAlias 1 example_fetched))] \<and>
      map_of (addNativeAlias 1 example_fetched) zeroAddress = Some (example_price zeroAddress 2000) \<and>
      example_price zeroAddress 2000 \<in> set (map_values (addNativeAlias 1 example_fetched))"
    using native_alias [of 1 example_weth "example_env (Inr example_fetched) []" "[]" example_fetched]
      w p a
    by (simp add: example_env_def)
  have t2: "addNativeAlias 1 [(zeroAddress, example_price zeroAddress 5)] =
       [(zeroAddress, example_price zeroAddress 5)] \<and>
     storeCalls (fst (fetchAndStorePrices
         (example_env (Inr [(zeroAddress, example_price zeroAddress 5)]) []) 1 [])) =
       [(1, [example_price zeroAddress 5])]"
    using native_alias [of 1 example_weth
        "example_env (Inr [(zeroAddress, example_price zeroAddress 5)]) []" "[]"
        "[(zeroAddress, example_price zeroAddress 5)]"] w n
    by (simp add: example_env_def map_values_def)
  show ?thesis using t1 t2 by blast
qed

text \<open>
  C4 as stated fails: on chain 1, with a fetched record of price 5 for the zero address
  and a record of price 2000 for the wrapped-native address, the map after the aliasing
  step holds price 2000 under the zero address, and the storage receives that record in
  place of the fetched one.
\<close>

theorem alias_overwrites_counterexample:
  "map_of example_fetched zeroAddress = Some (example_price zeroAddress 5) \<and>
   map_of example_fetched example_weth = Some (example_price example_weth 2000) \<and>
   map_of (addNativeAlias 1 example_fetched) zeroAddress = Some (example_price zeroAddress 2000) \<and>
   map_of (addNativeAlias 1 example_fetched) zeroAddress \<noteq> map_of example_fetched zeroAddress \<and>
   storeCalls (fst (fetchAndStorePrices (example_env (Inr example_fetched) []) 1 [])) =
     [(1, [example_price zeroAddress 2000, example_price example_weth 2000])]"
  by (simp add: example_fetched_def example_weth_def zeroAddress_def example_price_def
      addNativeAlias_def isNativeChain_def wethAddresses_def example_env_def
      fetchAndStorePrices_def fetchAndStorePrices_try_def tokensWithNative_def map_values_def
      toLowerCase_def)

text \<open>
  C4, as the code has it. On a registered network with wrapped-native address W: when the
  fetched map has a record for W, the aliasing step sets the entry of the zero address to
  the alias record, the record of W with the address replaced. A record the fetcher
  returned for the zero address is replaced by it, in its position; every other entry is
  unchanged; the key is appended when it was absent. When the map has no record for W the
  map is unchanged, a record for the zero address included.
\<close>

theorem alias_replaces_zero_entry:
  assumes "cid \<in> {1, 10, 42161, 8453}"
    and "wethAddresses cid = Some W"
  shows "(\<forall>r. map_of fetched W = Some r \<longrightarrow>
            map_of (addNativeAlias cid fetched) =
              (map_of fetched)(zeroAddress \<mapsto> r\<lparr>Price.address := zeroAddress\<rparr>) \<and>
            map fst (addNativeAlias cid fetched) =
              (if zeroAddress \<in> set (map fst fetched) then map fst fetched
               else map fst fetched @ [zeroAddress])) \<and>
         (map_of fetched W = None \<longrightarrow> addNativeAlias cid fetched = fetched)"
  using assms(2)
  by (simp add: addNativeAlias_present addNativeAlias_absent map_of_map_set map_set_keys)

theorem alias_replaces_zero_entry_witness:
  "map_of (addNativeAlias 1 example_fetched) =
     (map_of example_fetched)(zeroAddress \<mapsto> example_price zeroAddress 2000) \<and>
   map fst (addNativeAlias 1 example_fetched) = [zeroAddress, example_weth] \<and>
   addNativeAlias 1 [(zeroAddress, example_price zeroAddress 5)] =
     [(zeroAddress, example_price zeroAddress 5)]"
proof -
  have w: "wethAddresses 1 = Some example_weth"
    by (simp add: wethAddresses_def example_weth_def)
  have p: "map_of example_fetched example_weth = Some (example_price example_weth 2000)"
    by (simp add: example_fetched_def example_weth_def zeroAddress_def)
  have a: "example_price example_weth 2000\<lparr>Price.address := zeroAddress\<rparr> =
           example_price zeroAddress 2000"
    by (simp add: example_price_def)
  have k: "map fst example_fetched = [zeroAddress, example_weth]"
    by (simp add: example_fetched_def)
  have n: "map_of [(zeroAddress, example_price zeroAddress 5)] example_weth = None"
    by (simp add: example_weth_def zeroAddress_def)
  have t1: "map_of (addNativeAlias 1 example_fetched) =
       (map_of example_fetched)(zeroAddress \<mapsto> example_price zeroAddress 2000) \<and>
     map fst (addNativeAlias 1 example_fetched) = [zeroAddress, example_weth]"
    using alias_replaces_zero_entry [of 1 example_weth example_fetched] w p a k by simp
  have t2: "addNativeAlias 1 [(zeroAddress, example_price zeroAddress 5)] =
     [(zeroAddress, example_price zeroAddress 5)]"
    using alias_replaces_zero_entry [of 1 example_weth "[(zeroAddress, example_price zeroAddress 5)]"]
      w n by simp
  show ?thesis using t1 t2 by blast
qed

text \<open>
  C9. Every call of \<^verbatim>\<open>storePrices\<close> made by a batch carries a price array that is not
  empty. A batch whose fetch succeeds and whose price map is empty after the aliasing step
  calls the fetcher and takes the storage handle, makes no call of \<^verbatim>\<open>storePrices\<close>,
  logs no error and its promise is fulfilled.
\<close>

theorem store_only_when_not_empty:
  "(\<forall>c ps. (c, ps) \<in> set (storeCalls (fst (fetchAndStorePrices e cid tokens))) \<longrightarrow> ps \<noteq> []) \<and>
   (\<forall>fetched.
      fetchPrices e cid (tokensWithNative cid tokens) = Inr fetched \<and>
      getPriceStorage e = Inr () \<and> addNativeAlias cid fetched = [] \<longrightarrow>
      fetchAndStorePrices e cid tokens =
        ([FetchPrices cid (tokensWithNative cid tokens), GetPriceStorage], Inr ()) \<and>
      storeCalls (fst (fetchAndStorePrices e cid tokens)) = [] \<and>
      filter isErrorLog (fst (fetchAndStorePrices e cid tokens)) = [])"
proof (intro conjI allI impI)
  fix c ps
  assume "(c, ps) \<in> set (storeCalls (fst (fetchAndStorePrices e cid tokens)))"
  then show "ps \<noteq> []"
    by (auto simp: fetchAndStorePrices_def fetchAndStorePrices_try_def Let_def map_values_def
        split: sum.splits if_splits)
next
  fix fetched
  assume h: "fetchPrices e cid (tokensWithNative cid tokens) = Inr fetched \<and>
      getPriceStorage e = Inr () \<and> addNativeAlias cid fetched = []"
  then show r: "fetchAndStorePrices e cid tokens =
        ([FetchPrices cid (tokensWithNative cid tokens), GetPriceStorage], Inr ())"
    by (simp add: fetchAndStorePrices_def fetchAndStorePrices_try_def map_values_def)
  show "storeCalls (fst (fetchAndStorePrices e cid tokens)) = []" by (simp add: r)
  show "filter isErrorLog (fst (fetchAndStorePrices e cid tokens)) = []" by (simp add: r)
qed

theorem store_only_when_not_empty_witness:
  "fetchAndStorePrices (example_env (Inr []) []) 1 [] =
     ([FetchPrices 1 (tokensWithNative 1 []), GetPriceStorage], Inr ()) \<and>
   storeCalls (fst (fetchAndStorePrices (example_env (Inr []) []) 1 [])) = [] \<and>
   (137, [example_price zeroAddress 5]) \<in>
     set (storeCalls (fst (fetchAndStorePrices
       (example_env (Inr [(zeroAddress, example_price zeroAddress 5)]) []) 137 []))) \<and>
   [example_price zeroAddress 5] \<noteq> []"
proof -
  have a: "addNativeAlias 1 [] = []" by (simp add: addNativeAlias_Nil_iff)
  have t1: "fetchAndStorePrices (example_env (Inr []) []) 1 [] =
       ([FetchPrices 1 (tokensWithNative 1 []), GetPriceStorage], Inr ()) \<and>
     storeCalls (fst (fetchAndStorePrices (example_env (Inr []) []) 1 [])) = []"
    using store_only_when_not_empty [of "example_env (Inr []) []" 1 "[]"] a
    by (simp add: example_env_def)
  have m: "(137, [example_price zeroAddress 5]) \<in>
     set (storeCalls (fst (fetchAndStorePrices
       (example_env (Inr [(zeroAddress, example_price zeroAddress 5)]) []) 137 [])))"
    by (simp add: fetchAndStorePrices_def fetchAndStorePrices_try_def Let_def map_values_def
        example_env_def addNativeAlias_def isNativeChain_def)
  have t2: "[example_price zeroAddress 5] \<noteq> []"
    using store_only_when_not_empty
      [of "example_env (Inr [(zeroAddress, example_price zeroAddress 5)]) []" 137 "[]"] m
    by blast
  show ?thesis using t1 t2 m by simp
qed

text \<open>
  C10. On a store of arrays, with the input array behind a valid reference: after lines
  15 to 34 the input array holds the same elements in the same order, as does every
  array allocated before; \<^verbatim>\<open>tokensWithNative\<close> is a different, new array, it holds
  the list the pure model computes, and it is the array given to the fetcher. The lines
  after 34 do not refer to the input array.
\<close>

theorem input_array_unchanged:
  assumes "tokens < length h"
  shows "case tokensWithNative_store cid tokens h of
           (withNative, h') \<Rightarrow>
             h' ! tokens = h ! tokens \<and>
             (\<forall>r < length h. h' ! r = h ! r) \<and>
             withNative \<noteq> tokens \<and>
             h' ! withNative = tokensWithNative cid (h ! tokens) \<and>
             fetcherCalls (fst (fetchAndStorePrices e cid (h ! tokens))) = [(cid, h' ! withNative)]"
  using assms
  by (auto simp: tokensWithNative_store_def spread_copy_def array_push_def tokensWithNative_def
      fetcherCalls_batch nth_append split: option.splits)

theorem input_array_unchanged_witness:
  "snd (tokensWithNative_store 1 0 [[example_token ''0xabc'']]) ! 0 = [example_token ''0xabc''] \<and>
   fst (tokensWithNative_store 1 0 [[example_token ''0xabc'']]) = 1 \<and>
   snd (tokensWithNative_store 1 0 [[example_token ''0xabc'']]) ! 1 =
     [example_token ''0xabc'', wethToken 1 example_weth]"
proof -
  have l: "(0::nat) < length [[example_token ''0xabc'']]" by simp
  have v: "tokensWithNative_store 1 0 [[example_token ''0xabc'']] =
      (1, [[example_token ''0xabc''], [example_token ''0xabc'', wethToken 1 example_weth]])"
    by (simp add: tokensWithNative_store_def spread_copy_def array_push_def isNativeChain_def
        wethAddresses_def example_token_def example_weth_def toLowerCase_def)
  show ?thesis
    using input_array_unchanged [OF l, of 1 "example_env (Inr []) []"] v by simp
qed

text \<open>
  C2. For a network with N tokens, the processed count reported after the group at position
  i (the number of groups completed before it) is
  \<open>min (i * 3 * 500 + the number of tokens of that group) N\<close>, under the key of the chain;
  this is \<open>min ((i + 1) * 1500) N\<close>. The reported values never decrease, a value equals N
  exactly at the last group, and a network with tokens does report N at its last group.
\<close>

theorem progress_reports:
  "let N = length tokens;
       batchGroups = chunk (chunk tokens batchSize) 3;
       reports = progressReports (fst (processChain e (cid, tokens)))
   in reports =
        map (\<lambda>i. (chainKey cid, min (i * 3 * batchSize + groupTokenCount (batchGroups ! i)) N))
          [0..<length batchGroups] \<and>
      reports = map (\<lambda>i. (chainKey cid, min (Suc i * 1500) N)) [0..<length batchGroups] \<and>
      sorted (map snd reports) \<and>
      (\<forall>i < length reports. snd (reports ! i) = N \<longleftrightarrow> Suc i = length reports) \<and>
      (tokens \<noteq> [] \<longrightarrow> reports \<noteq> [] \<and> snd (last reports) = N)"
proof -
  let ?N = "length tokens"
  let ?gs = "chunk (chunk tokens batchSize) 3"
  let ?rs = "progressReports (fst (processChain e (cid, tokens)))"
  have closed: "?rs = map (\<lambda>i. (chainKey cid, min (Suc i * 1500) ?N)) [0..<length ?gs]"
    by (rule progressReports_closed)
  have spec: "?rs =
      map (\<lambda>i. (chainKey cid, min (i * 3 * batchSize + groupTokenCount (?gs ! i)) ?N))
        [0..<length ?gs]"
    unfolding closed by (rule map_cong [OF refl]) (simp add: reported_value(2))
  have len: "length ?rs = length ?gs" by (simp add: closed)
  have "map snd ?rs = map (\<lambda>j. min (Suc j * 1500) ?N) [0..<length ?gs]"
    by (simp add: closed comp_def)
  then have srt: "sorted (map snd ?rs)" by (simp only: sorted_reports)
  have nb: "length (chunk tokens batchSize) = (?N + 499) div 500"
    by (simp add: length_chunk batchSize_def)
  have ng: "length ?gs = (length (chunk tokens batchSize) + 2) div 3"
    by (simp add: length_chunk)
  have b1: "?N \<le> length (chunk tokens batchSize) * 500"
    and b2: "length (chunk tokens batchSize) * 500 < ?N + 500"
    using batch_count_bounds [of ?N] nb by simp_all
  have g1: "length (chunk tokens batchSize) \<le> length ?gs * 3"
    and g2: "length ?gs * 3 < length (chunk tokens batchSize) + 3"
    using group_count_bounds [of "length (chunk tokens batchSize)"] ng by simp_all
  have final: "snd (?rs ! i) = ?N \<longleftrightarrow> Suc i = length ?rs" if i: "i < length ?rs" for i
  proof -
    have v: "snd (?rs ! i) = min (Suc i * 1500) ?N" using i len by (simp add: closed)
    show ?thesis
    proof (cases "Suc i = length ?gs")
      case True
      then have "?N \<le> Suc i * 1500" using last_group [OF b1 g1] by simp
      then show ?thesis using v True len by simp
    next
      case False
      then have "Suc i < length ?gs" using i len by simp
      then have "Suc i * 1500 < ?N" using before_last_group [OF b1 b2 g2] by simp
      then show ?thesis using v False len by simp
    qed
  qed
  have ne: "?rs \<noteq> [] \<and> snd (last ?rs) = ?N" if t: "tokens \<noteq> []"
  proof -
    have g: "?gs \<noteq> []" using t by (rule chunk_groups_not_Nil)
    then have r: "?rs \<noteq> []" using len by (metis length_0_conv)
    then have i: "length ?rs - 1 < length ?rs" by simp
    have "snd (?rs ! (length ?rs - 1)) = ?N" using final [OF i] r by simp
    then show ?thesis using r by (simp add: last_conv_nth)
  qed
  show ?thesis unfolding Let_def using spec closed srt final ne by blast
qed

theorem progress_reports_witness:
  "progressReports (fst (processChain (example_env (Inr []) [])
       (1, replicate 1200 (example_token ''0xabc'')))) = [(''chain-1'', 1200)] \<and>
   progressReports (fst (processChain (example_env (Inl (Error ''timeout'')) [])
       (10, replicate 3100 (example_token ''0xabc'')))) =
     [(''chain-10'', 1500), (''chain-10'', 3000), (''chain-10'', 3100)]"
proof -
  have k1: "chainKey 1 = ''chain-1''" and k10: "chainKey 10 = ''chain-10''"
    by (simp_all add: chainKey_def numberToString_def digits.simps)
  have g1: "length (chunk (chunk (replicate 1200 (example_token ''0xabc'')) batchSize) 3) = 1"
    by (simp add: length_chunk batchSize_def)
  have g2: "length (chunk (chunk (replicate 3100 (example_token ''0xabc'')) batchSize) 3) = 3"
    by (simp add: length_chunk batchSize_def)
  have u1: "[0..<1] = [0]" and u3: "[0..<3] = [0, 1, 2]" by (simp_all add: upt_rec)
  have a: "progressReports (fst (processChain (example_env (Inr []) [])
       (1, replicate 1200 (example_token ''0xabc'')))) = [(''chain-1'', 1200)]"
    using progress_reports [of "replicate 1200 (example_token ''0xabc'')"
        "example_env (Inr []) []" 1, unfolded Let_def, THEN conjunct2, THEN conjunct1]
    unfolding g1 u1 k1 by simp
  have b: "progressReports (fst (processChain (example_env (Inl (Error ''timeout'')) [])
       (10, replicate 3100 (example_token ''0xabc'')))) =
     [(''chain-10'', 1500), (''chain-10'', 3000), (''chain-10'', 3100)]"
    using progress_reports [of "replicate 3100 (example_token ''0xabc'')"
        "example_env (Inl (Error ''timeout'')) []" 10, unfolded Let_def, THEN conjunct2,
        THEN conjunct1]
    unfolding g2 u3 k10 by simp
  show ?thesis using a b by blast
qed

text \<open>
  C7. Starting the periodic fetch logs, calls the discovery with \<open>forceRefresh = true\<close> at
  once, arms the timer and goes on with that pass. A tick of the timer that reads the clock
  value \<open>now\<close> runs one pass, and that pass calls the discovery once, with
  \<open>forceRefresh = true\<close> exactly when \<open>now mod 3600000 < intervalMs\<close>. Over a start and
  any list of ticks the flags given to the discovery are \<open>true\<close> followed by that test
  for each tick.
\<close>

theorem periodic_discovery_flags:
  "startPeriodicFetch e tr intervalMs =
     Log (StartingPriceService intervalMs) # DiscoverAllTokens True # SetInterval intervalMs
       # fetchDiscoveredTokens_settled e tr True \<and>
   discoveryFlags (startPeriodicFetch e tr intervalMs) = [True] \<and>
   timerCallback e tr intervalMs now =
     fetchDiscoveredTokens e tr (int (now mod 3600000) < intervalMs) \<and>
   discoveryFlags (timerCallback e tr intervalMs now) = [int (now mod 3600000) < intervalMs] \<and>
   discoveryFlags (periodicFetch e tr intervalMs nows) =
     True # map (\<lambda>now. int (now mod 3600000) < intervalMs) nows"
  by (simp add: startPeriodicFetch_def timerCallback_def periodicFetch_def Let_def
      shouldRediscover_def discoveryFlags_append discoveryFlags_settled discoveryFlags_pass
      discoveryFlags_ticks)

theorem periodic_discovery_flags_witness:
  "discoveryFlags (periodicFetch (example_env (Inr []) []) [] 60000 [3600000, 3659999, 3660000, 7199999])
     = [True, True, True, False, False]"
  using periodic_discovery_flags [of "example_env (Inr []) []" "[]" 60000 0
      "[3600000, 3659999, 3660000, 7199999]"]
  by simp

text \<open>
  C8. The call for a network with no token is one segment with one event, the increment
  of \<open>processing-all\<close>: no entry for the network is started, nothing is fetched or stored.
  The call for a network with tokens is fulfilled, and its calls of the tracker are, in
  order: the start of the entry keyed \<open>chain-<id>\<close> with the number of tokens as total and
  the chain identifier, the progress updates under that key, the completion of that entry,
  and the increment of \<open>processing-all\<close>; the fetcher is called for every batch of its
  tokens, in order. Its first segment, made when the pass starts the networks, is the start
  of its entry and the fetch calls of its first group. A pass whose discovery succeeds
  consists of the discovery; then the start of \<open>processing-all\<close> and the first segments of
  all the networks, in their order; then the later segments of the networks, each of them
  once, merged so that the segments of one network keep their order; then the completion of
  \<open>processing-all\<close> and the summary.
\<close>

theorem chain_task:
  "(tokens = [] \<longrightarrow>
      processChain_call e (cid, tokens) = ([[TrackerIncrement processingKey]], Inr ()) \<and>
      processChain e (cid, tokens) = ([TrackerIncrement processingKey], Inr ()) \<and>
      fetcherCalls (fst (processChain e (cid, tokens))) = [] \<and>
      storeCalls (fst (processChain e (cid, tokens))) = []) \<and>
   (tokens \<noteq> [] \<longrightarrow>
      snd (processChain e (cid, tokens)) = Inr () \<and>
      trackerCalls (fst (processChain e (cid, tokens))) =
        TrackerStart (chainKey cid) ''Fetching Prices'' (length tokens) (Some cid)
          # map (\<lambda>v. TrackerUpdate (chainKey cid) v)
              (map snd (progressReports (fst (processChain e (cid, tokens)))))
          @ [TrackerComplete (chainKey cid), TrackerIncrement processingKey] \<and>
      fetcherCalls (fst (processChain e (cid, tokens))) =
        map (\<lambda>batch. (cid, tokensWithNative cid batch)) (chunk tokens batchSize) \<and>
      concat (chunk tokens batchSize) = tokens \<and>
      firstSegment (processChain_call e (cid, tokens)) =
        TrackerStart (chainKey cid) ''Fetching Prices'' (length tokens) (Some cid)
          # map (\<lambda>batch. FetchPrices cid (tokensWithNative cid batch))
              (hd (chunk (chunk tokens batchSize) 3))) \<and>
   fst (processChain e (cid, tokens)) =
     firstSegment (processChain_call e (cid, tokens))
       @ concat (laterSegments (processChain_call e (cid, tokens))) \<and>
   (\<forall>tokensByChain. discoverAllTokens e forceRefresh = Inr tokensByChain \<longrightarrow>
      (\<exists>total errs later.
         fetchDiscoveredTokens e tr forceRefresh =
           [DiscoverAllTokens forceRefresh,
            Log (DiscoveryComplete (length tokensByChain) total),
            TrackerStart processingKey ''Processing Chains'' (length tokensByChain) None]
           @ concat (map (\<lambda>entry. firstSegment (processChain_call e entry)) tokensByChain)
           @ concat later
           @ [TrackerComplete processingKey, TrackerGetStats,
              Log (PriceFetchComplete total errs)] \<and>
         mset later =
           mset (concat (map (\<lambda>entry. laterSegments (processChain_call e entry)) tokensByChain)) \<and>
         (\<forall>entry \<in> set tokensByChain.
            subseq (laterSegments (processChain_call e entry)) later)))"
proof (intro conjI impI allI)
  assume t: "tokens = []"
  show "processChain_call e (cid, tokens) = ([[TrackerIncrement processingKey]], Inr ())"
    using t by (simp add: processChain_call_empty)
  show "processChain e (cid, tokens) = ([TrackerIncrement processingKey], Inr ())"
    using t by (simp add: processChain_empty)
  then show "fetcherCalls (fst (processChain e (cid, tokens))) = []"
    and "storeCalls (fst (processChain e (cid, tokens))) = []" by simp_all
next
  assume t: "tokens \<noteq> []"
  show "snd (processChain e (cid, tokens)) = Inr ()" by (rule processChain_fulfilled)
  have keys: "map (\<lambda>kv. TrackerUpdate (fst kv) (snd kv))
                (progressReports (fst (processChain e (cid, tokens)))) =
              map (\<lambda>v. TrackerUpdate (chainKey cid) v)
                (map snd (progressReports (fst (processChain e (cid, tokens)))))"
    by (simp add: progressReports_closed comp_def)
  show "trackerCalls (fst (processChain e (cid, tokens))) =
        TrackerStart (chainKey cid) ''Fetching Prices'' (length tokens) (Some cid)
          # map (\<lambda>v. TrackerUpdate (chainKey cid) v)
              (map snd (progressReports (fst (processChain e (cid, tokens)))))
          @ [TrackerComplete (chainKey cid), TrackerIncrement processingKey]"
    using trackerCalls_chain [OF t, of e cid] by (simp only: keys)
  show "fetcherCalls (fst (processChain e (cid, tokens))) =
        map (\<lambda>batch. (cid, tokensWithNative cid batch)) (chunk tokens batchSize)"
    by (rule fetcherCalls_chain)
  show "concat (chunk tokens batchSize) = tokens" by (simp add: concat_chunk batchSize_def)
  show "firstSegment (processChain_call e (cid, tokens)) =
        TrackerStart (chainKey cid) ''Fetching Prices'' (length tokens) (Some cid)
          # map (\<lambda>batch. FetchPrices cid (tokensWithNative cid batch))
              (hd (chunk (chunk tokens batchSize) 3))"
    using processChain_call_first [OF t, of e cid] by (auto simp: firstSegment_def)
next
  have "fst (processChain e (cid, tokens)) = concat (fst (processChain_call e (cid, tokens)))"
    by (simp add: processChain_def)
  also have "\<dots> = concat (firstSegment (processChain_call e (cid, tokens))
      # laterSegments (processChain_call e (cid, tokens)))"
    by (subst processChain_call_split) simp
  finally show "fst (processChain e (cid, tokens)) =
     firstSegment (processChain_call e (cid, tokens))
       @ concat (laterSegments (processChain_call e (cid, tokens)))"
    by simp
next
  fix tokensByChain
  assume d: "discoverAllTokens e forceRefresh = Inr tokensByChain"
  let ?later = "interleave (chainOrder e)
      (map (\<lambda>entry. laterSegments (processChain_call e entry)) tokensByChain)"
  from settled_discovered [OF d, of tr] obtain total errs where
    p: "fetchDiscoveredTokens_settled e tr forceRefresh =
       [Log (DiscoveryComplete (length tokensByChain) total),
        TrackerStart processingKey ''Processing Chains'' (length tokensByChain) None]
       @ concat (map (\<lambda>entry. firstSegment (processChain_call e entry)) tokensByChain)
       @ concat ?later
       @ [TrackerComplete processingKey, TrackerGetStats, Log (PriceFetchComplete total errs)]"
    by blast
  have m: "mset ?later =
      mset (concat (map (\<lambda>entry. laterSegments (processChain_call e entry)) tokensByChain))"
    by (rule mset_interleave)
  have s: "\<forall>entry \<in> set tokensByChain. subseq (laterSegments (processChain_call e entry)) ?later"
    by (auto intro!: subseq_interleave)
  have "fetchDiscoveredTokens e tr forceRefresh =
           [DiscoverAllTokens forceRefresh,
            Log (DiscoveryComplete (length tokensByChain) total),
            TrackerStart processingKey ''Processing Chains'' (length tokensByChain) None]
           @ concat (map (\<lambda>entry. firstSegment (processChain_call e entry)) tokensByChain)
           @ concat ?later
           @ [TrackerComplete processingKey, TrackerGetStats,
              Log (PriceFetchComplete total errs)]"
    by (simp add: fetchDiscoveredTokens_def p)
  then show "\<exists>total errs later.
         fetchDiscoveredTokens e tr forceRefresh =
           [DiscoverAllTokens forceRefresh,
            Log (DiscoveryComplete (length tokensByChain) total),
            TrackerStart processingKey ''Processing Chains'' (length tokensByChain) None]
           @ concat (map (\<lambda>entry. firstSegment (processChain_call e entry)) tokensByChain)
           @ concat later
           @ [TrackerComplete processingKey, TrackerGetStats,
              Log (PriceFetchComplete total errs)] \<and>
         mset later =
           mset (concat (map (\<lambda>entry. laterSegments (processChain_call e entry)) tokensByChain)) \<and>
         (\<forall>entry \<in> set tokensByChain.
            subseq (laterSegments (processChain_call e entry)) later)"
    using m s by blast
qed

theorem chain_task_witness:
  "processChain example_pass_env (137, []) = ([TrackerIncrement ''processing-all''], Inr ()) \<and>
   firstSegment (processChain_call example_pass_env (10, [example_token ''0xb''])) =
     [TrackerStart ''chain-10'' ''Fetching Prices'' 1 (Some 10),
      FetchPrices 10 (tokensWithNative 10 [example_token ''0xb''])] \<and>
   trackerCalls (fst (processChain example_pass_env (1, [example_token ''0xa'']))) =
     [TrackerStart ''chain-1'' ''Fetching Prices'' 1 (Some 1), TrackerUpdate ''chain-1'' 1,
      TrackerComplete ''chain-1'', TrackerIncrement ''processing-all''] \<and>
   fetchDiscoveredTokens example_pass_env [] True =
     [DiscoverAllTokens True, Log (DiscoveryComplete 2 2),
      TrackerStart ''processing-all'' ''Processing Chains'' 2 None,
      TrackerStart ''chain-1'' ''Fetching Prices'' 1 (Some 1),
      FetchPrices 1 (tokensWithNative 1 [example_token ''0xa'']),
      TrackerStart ''chain-10'' ''Fetching Prices'' 1 (Some 10),
      FetchPrices 10 (tokensWithNative 10 [example_token ''0xb'']),
      GetPriceStorage, GetPriceStorage,
      TrackerUpdate ''chain-1'' 1, TrackerComplete ''chain-1'', TrackerIncrement ''processing-all'',
      TrackerUpdate ''chain-10'' 1, TrackerComplete ''chain-10'', TrackerIncrement ''processing-all'',
      TrackerComplete ''processing-all'', TrackerGetStats, Log (PriceFetchComplete 2 0)]"
proof -
  have k1: "chainKey 1 = ''chain-1''" and k10: "chainKey 10 = ''chain-10''"
    by (simp_all add: chainKey_def numberToString_def digits.simps)
  have pk: "processingKey = ''processing-all''" by (simp add: processingKey_def)
  have c: "chunk (chunk [t] batchSize) 3 = [[[t]]]" for t :: ERC20Token
    by (simp add: chunk.simps batchSize_def)
  have r: "progressReports (fst (processChain example_pass_env (1, [example_token ''0xa'']))) =
      [(chainKey 1, 1)]"
    by (simp add: progressReports_closed c)
  have a: "processChain example_pass_env (137, []) = ([TrackerIncrement ''processing-all''], Inr ())"
    using chain_task [of "[]" example_pass_env 137 True "[]"] by (simp add: pk)
  have b: "firstSegment (processChain_call example_pass_env (10, [example_token ''0xb''])) =
     [TrackerStart ''chain-10'' ''Fetching Prices'' 1 (Some 10),
      FetchPrices 10 (tokensWithNative 10 [example_token ''0xb''])]"
  proof -
    have ne: "[example_token ''0xb''] \<noteq> []" by simp
    note chain_task [of "[example_token ''0xb'']" example_pass_env 10 True "[]",
        THEN conjunct2, THEN conjunct1, rule_format, OF ne]
    then show ?thesis by (simp add: c k10)
  qed
  have t: "trackerCalls (fst (processChain example_pass_env (1, [example_token ''0xa'']))) =
     [TrackerStart ''chain-1'' ''Fetching Prices'' 1 (Some 1), TrackerUpdate ''chain-1'' 1,
      TrackerComplete ''chain-1'', TrackerIncrement ''processing-all'']"
  proof -
    have ne: "[example_token ''0xa''] \<noteq> []" by simp
    note chain_task [of "[example_token ''0xa'']" example_pass_env 1 True "[]",
        THEN conjunct2, THEN conjunct1, rule_format, OF ne, THEN conjunct2, THEN conjunct1]
    then show ?thesis by (simp add: r k1 pk)
  qed
  have p: "fetchDiscoveredTokens example_pass_env [] True =
     [DiscoverAllTokens True, Log (DiscoveryComplete 2 2),
      TrackerStart ''processing-all'' ''Processing Chains'' 2 None,
      TrackerStart ''chain-1'' ''Fetching Prices'' 1 (Some 1),
      FetchPrices 1 (tokensWithNative 1 [example_token ''0xa'']),
      TrackerStart ''chain-10'' ''Fetching Prices'' 1 (Some 10),
      FetchPrices 10 (tokensWithNative 10 [example_token ''0xb'']),
      GetPriceStorage, GetPriceStorage,
      TrackerUpdate ''chain-1'' 1, TrackerComplete ''chain-1'', TrackerIncrement ''processing-all'',
      TrackerUpdate ''chain-10'' 1, TrackerComplete ''chain-10'', TrackerIncrement ''processing-all'',
      TrackerComplete ''processing-all'', TrackerGetStats, Log (PriceFetchComplete 2 0)]"
    by code_simp
  show ?thesis using a b t p by blast
qed



end
